theory Spec2Isabelle
  imports Complex_Main "HOL-Library.List_Lexorder" "HOL-Library.Char_ord"
begin

section \<open>Message harvester (src/src/utils.py)\<close>

text \<open>
  Strings are lists of 8-bit characters read as code points below 256; Python compares
  strings code point by code point, which is the lexicographic order on lists of
  characters used here.  Points in time (aware UTC datetimes) are integers counting
  microseconds; message ids are natural numbers.
\<close>

datatype error = Fault

text \<open>The fields of a platform message that the harvester reads.\<close>

record raw_message =
  m_id :: nat
  m_content :: string
  m_author_name :: string
  m_author_bot :: bool
  m_created_at :: int
  m_attachments :: "string list"
  m_embeds :: "string list"

text \<open>Class \<open>MessageData\<close>; the field \<open>id\<close> is called \<open>msg_id\<close> here.\<close>

record MessageData =
  msg_id :: string
  content :: string
  author :: string
  timestamp :: string
  attachments :: "string list"
  embeds :: nat
  channel_name :: string
  is_thread :: bool
  thread_name :: "string option"
  urls :: "string list"

text \<open>
  The channel or thread object: its name, its paged history (called with
  \<open>limit=100\<close> and the optional \<open>before\<close> cursor; a call may raise), and the
  outcome of \<open>channel.parent.fetch_message(channel.id)\<close>.
\<close>

record channel =
  ch_name :: string
  ch_history :: "nat option \<Rightarrow> error + raw_message list"
  ch_parent_fetch_message :: "error + raw_message"

text \<open>Python's \<open>str\<close> on a non-negative integer: its decimal digits.\<close>

definition digit_char :: "nat \<Rightarrow> char" where
  "digit_char d = char_of (48 + d)"

fun str_nat :: "nat \<Rightarrow> string" where
  "str_nat n = (if n < 10 then [digit_char n] else str_nat (n div 10) @ [digit_char (n mod 10)])"

declare str_nat.simps [simp del]

text \<open>Python's \<open>str.lower\<close> on code points below 256.\<close>

definition lower_char :: "char \<Rightarrow> char" where
  "lower_char c =
     (let n = (of_char c :: nat)
      in if (65 \<le> n \<and> n \<le> 90) \<or> (192 \<le> n \<and> n \<le> 222 \<and> n \<noteq> 215)
         then char_of (n + 32) else c)"

definition lower :: "string \<Rightarrow> string" where
  "lower s = map lower_char s"

text \<open>The substring test \<open>sub in s\<close>.\<close>

fun contains :: "string \<Rightarrow> string \<Rightarrow> bool" where
  "contains sub [] = (sub = [])"
| "contains sub (c # cs) = (take (length sub) (c # cs) = sub \<or> contains sub cs)"

text \<open>
  \<open>timedelta(days=days)\<close> in microseconds, and the cutoff
  \<open>datetime.now(timezone.utc) - timedelta(days=days)\<close>.
\<close>

definition cutoff_date :: "int \<Rightarrow> int \<Rightarrow> int" where
  "cutoff_date now days = now - days * 86400000000"

text \<open>
  The record built for a message of a page (lines 126 to 142).  \<open>isoformat\<close> and
  \<open>extract_urls\<close> are passed in: the first is the library's rendering of a datetime, the
  second is defined further down from its regular expression.
\<close>

definition message_data ::
  "(int \<Rightarrow> string) \<Rightarrow> (string \<Rightarrow> string list) \<Rightarrow> string \<Rightarrow> bool \<Rightarrow> string option
     \<Rightarrow> raw_message \<Rightarrow> MessageData" where
  "message_data isoformat extract cname is_thr tname message =
     \<lparr> msg_id = str_nat (m_id message),
       content = m_content message,
       author = m_author_name message,
       timestamp = isoformat (m_created_at message),
       attachments = m_attachments message,
       embeds = length (m_embeds message),
       channel_name = cname,
       is_thread = is_thr,
       thread_name = (if is_thr then tname else None),
       urls = filter (\<lambda>url. \<not> contains ''github.com'' (lower url)) (extract (m_content message)) \<rparr>"

text \<open>The record built for the thread's first message (lines 156 to 169).\<close>

definition first_message_data ::
  "(int \<Rightarrow> string) \<Rightarrow> (string \<Rightarrow> string list) \<Rightarrow> string \<Rightarrow> bool \<Rightarrow> string option
     \<Rightarrow> raw_message \<Rightarrow> MessageData" where
  "first_message_data isoformat extract cname is_thr tname first_message =
     \<lparr> msg_id = str_nat (m_id first_message),
       content = ''[Thread Starter] '' @ m_content first_message,
       author = m_author_name first_message,
       timestamp = isoformat (m_created_at first_message),
       attachments = m_attachments first_message,
       embeds = length (m_embeds first_message),
       channel_name = cname,
       is_thread = is_thr,
       thread_name = (if is_thr then tname else None),
       urls = extract (m_content first_message) \<rparr>"

text \<open>
  The \<open>for message in fetched_messages\<close> loop (lines 112 to 144).  It returns the
  grown list and whether the loop ran to its end: \<open>False\<close> is the \<open>break\<close> on a message
  older than the cutoff, which also clears \<open>fetch_more\<close>.
\<close>

fun process_page ::
  "(raw_message \<Rightarrow> MessageData) \<Rightarrow> int \<Rightarrow> bool \<Rightarrow> raw_message option
     \<Rightarrow> raw_message list \<Rightarrow> MessageData list \<Rightarrow> MessageData list \<times> bool" where
  "process_page mk cutoff is_thr first_message [] messages = (messages, True)"
| "process_page mk cutoff is_thr first_message (message # rest) messages =
     (if m_created_at message < cutoff then (messages, False)
      else if m_author_bot message then process_page mk cutoff is_thr first_message rest messages
      else if is_thr \<and> (case first_message of None \<Rightarrow> False | Some f \<Rightarrow> m_id message = m_id f)
        then process_page mk cutoff is_thr first_message rest messages
      else process_page mk cutoff is_thr first_message rest (messages @ [mk message]))"

text \<open>
  The \<open>while fetch_more\<close> loop (lines 95 to 148).  The first argument bounds the number
  of pages fetched; \<open>None\<close> means the loop was still running when the bound was used up.
  \<open>if last_id\<close> tests truthiness, so a cursor 0 is not passed on.
\<close>

definition before_option :: "nat option \<Rightarrow> nat option" where
  "before_option last_id = (case last_id of None \<Rightarrow> None | Some i \<Rightarrow> if i = 0 then None else Some i)"

fun fetch_loop ::
  "nat \<Rightarrow> (nat option \<Rightarrow> error + raw_message list) \<Rightarrow> (raw_message \<Rightarrow> MessageData) \<Rightarrow> int \<Rightarrow> bool
     \<Rightarrow> raw_message option \<Rightarrow> nat option \<Rightarrow> MessageData list \<Rightarrow> (error + MessageData list) option" where
  "fetch_loop 0 history mk cutoff is_thr first_message last_id messages = None"
| "fetch_loop (Suc fuel) history mk cutoff is_thr first_message last_id messages =
     (case history (before_option last_id) of
        Inl e \<Rightarrow> Some (Inl e)
      | Inr fetched_messages \<Rightarrow>
          if fetched_messages = [] then Some (Inr messages)
          else
            (case process_page mk cutoff is_thr first_message fetched_messages messages of
               (messages', fetch_more) \<Rightarrow>
                 if fetch_more \<and> \<not> length fetched_messages < 100
                 then fetch_loop fuel history mk cutoff is_thr first_message
                        (Some (m_id (last fetched_messages))) messages'
                 else Some (Inr messages')))"

text \<open>
  \<open>fetch_messages_from_past\<close>.  A fault of the first-message fetch leaves
  \<open>first_message\<close> at \<open>None\<close>; a fault of a page fetch is caught by the outer handler,
  which returns the empty list.
\<close>

definition thread_first_message :: "channel \<Rightarrow> bool \<Rightarrow> raw_message option" where
  "thread_first_message ch is_thr =
     (if is_thr then (case ch_parent_fetch_message ch of Inl e \<Rightarrow> None | Inr f \<Rightarrow> Some f) else None)"

definition add_first_message ::
  "(raw_message \<Rightarrow> MessageData) \<Rightarrow> bool \<Rightarrow> raw_message option \<Rightarrow> MessageData list \<Rightarrow> MessageData list" where
  "add_first_message mkf is_thr first_message messages =
     (case first_message of
        None \<Rightarrow> messages
      | Some f \<Rightarrow> if is_thr \<and> \<not> m_author_bot f then mkf f # messages else messages)"

definition read_history ::
  "nat \<Rightarrow> (int \<Rightarrow> string) \<Rightarrow> (string \<Rightarrow> string list) \<Rightarrow> int
     \<Rightarrow> channel \<Rightarrow> int \<Rightarrow> bool \<Rightarrow> string option \<Rightarrow> (error + MessageData list) option" where
  "read_history fuel isoformat extract now ch days is_thr tname =
     fetch_loop fuel (ch_history ch) (message_data isoformat extract (ch_name ch) is_thr tname)
       (cutoff_date now days) is_thr (thread_first_message ch is_thr) None []"

definition fetch_messages_from_past ::
  "nat \<Rightarrow> (int \<Rightarrow> string) \<Rightarrow> (string \<Rightarrow> string list) \<Rightarrow> int
     \<Rightarrow> channel \<Rightarrow> int \<Rightarrow> bool \<Rightarrow> string option \<Rightarrow> MessageData list option" where
  "fetch_messages_from_past fuel isoformat extract now ch days is_thr tname =
     (case read_history fuel isoformat extract now ch days is_thr tname of
        None \<Rightarrow> None
      | Some (Inl e) \<Rightarrow> Some []
      | Some (Inr messages) \<Rightarrow>
          Some (add_first_message (first_message_data isoformat extract (ch_name ch) is_thr tname)
                  is_thr (thread_first_message ch is_thr) (sort_key timestamp messages)))"

text \<open>
  The messages of a page that the loop turns into records: not written by a bot and,
  in a thread, not the first message.
\<close>

definition keep_message :: "bool \<Rightarrow> raw_message option \<Rightarrow> raw_message \<Rightarrow> bool" where
  "keep_message is_thr first_message message =
     (\<not> m_author_bot message \<and>
      \<not> (is_thr \<and> (case first_message of None \<Rightarrow> False | Some f \<Rightarrow> m_id message = m_id f)))"

text \<open>The records of a page up to its first message older than the cutoff.\<close>

definition page_records ::
  "(raw_message \<Rightarrow> MessageData) \<Rightarrow> int \<Rightarrow> bool \<Rightarrow> raw_message option \<Rightarrow> raw_message list
     \<Rightarrow> MessageData list" where
  "page_records mk cutoff is_thr first_message page =
     map mk (filter (keep_message is_thr first_message)
               (takeWhile (\<lambda>message. \<not> m_created_at message < cutoff) page))"

text \<open>
  \<open>datetime.isoformat\<close> of an aware UTC datetime given in microseconds since the epoch:
  the civil date from the day number, then \<open>YYYY-MM-DDTHH:MM:SS[.ffffff]+00:00\<close>
  (the fraction is left out when it is zero).  Python's datetimes have years 1 to 9999.
\<close>

definition pad :: "nat \<Rightarrow> nat \<Rightarrow> string" where
  "pad w n = replicate (w - length (str_nat n)) CHR ''0'' @ str_nat n"

definition civil_from_days :: "int \<Rightarrow> int \<times> nat \<times> nat" where
  "civil_from_days z =
     (let z' = z + 719468;
          era = z' div 146097;
          doe = z' mod 146097;
          yoe = (doe - doe div 1460 + doe div 36524 - doe div 146096) div 365;
          doy = doe - (365 * yoe + yoe div 4 - yoe div 100);
          mp = (5 * doy + 2) div 153;
          d = doy - (153 * mp + 2) div 5 + 1;
          mo = (if mp < 10 then mp + 3 else mp - 9);
          y = yoe + era * 400 + (if mo \<le> 2 then 1 else 0)
      in (y, nat mo, nat d))"

definition isoformat_utc :: "int \<Rightarrow> string" where
  "isoformat_utc t =
     (let secs = t div 1000000;
          us = nat (t mod 1000000);
          sod = nat (secs mod 86400)
      in case civil_from_days (secs div 86400) of
           (y, mo, d) \<Rightarrow>
             pad 4 (nat y) @ ''-'' @ pad 2 mo @ ''-'' @ pad 2 d @ ''T'' @
             pad 2 (sod div 3600) @ '':'' @ pad 2 (sod mod 3600 div 60) @ '':'' @ pad 2 (sod mod 60) @
             (if us = 0 then [] else ''.'' @ pad 6 us) @ ''+00:00'')"

section \<open>Regular expressions as the sources use them\<close>

text \<open>
  The fragment of Python's \<open>re\<close> that the sources need, with the semantics of its
  backtracking matcher: a match attempt yields the list of its possible outcomes in the
  order the matcher tries them, so the head of the list is the match \<open>re\<close> reports.
  Repetition is greedy and ranges over character classes only, as in every pattern of
  the sources.  A class is a list of ranges, possibly negated.
\<close>

type_synonym char_class = "bool \<times> (char \<times> char) list"

datatype regex =
    Lit char
  | Rep char_class nat "nat option"
  | Seq regex regex
  | Alt regex regex
  | Opt regex
  | Grp nat regex
  | Bnd
  | Bol
  | Eol

text \<open>
  A matcher state: the character before the current position (\<open>None\<close> at the start of
  the subject), the rest of the subject, and the groups captured so far, latest first.
\<close>

type_synonym mstate = "char option \<times> string \<times> (nat \<times> string) list"

definition in_class :: "char_class \<Rightarrow> char \<Rightarrow> bool" where
  "in_class cl c = (fst cl \<noteq> list_ex (\<lambda>(lo, hi). lo \<le> c \<and> c \<le> hi) (snd cl))"

text \<open>Word characters for \<open>\b\<close>: alphanumeric code points below 256 and the underscore.\<close>

definition is_word :: "char \<Rightarrow> bool" where
  "is_word c =
     (let n = (of_char c :: nat)
      in (48 \<le> n \<and> n \<le> 57) \<or> (65 \<le> n \<and> n \<le> 90) \<or> n = 95 \<or> (97 \<le> n \<and> n \<le> 122) \<or>
         n = 170 \<or> n = 178 \<or> n = 179 \<or> n = 181 \<or> n = 185 \<or> n = 186 \<or> (188 \<le> n \<and> n \<le> 190) \<or>
         (192 \<le> n \<and> n \<le> 214) \<or> (216 \<le> n \<and> n \<le> 246) \<or> 248 \<le> n)"

text \<open>Whitespace for \<open>\s\<close> and \<open>str.strip\<close>, again below 256.\<close>

definition is_space :: "char \<Rightarrow> bool" where
  "is_space c =
     (let n = (of_char c :: nat)
      in (9 \<le> n \<and> n \<le> 13) \<or> (28 \<le> n \<and> n \<le> 32) \<or> n = 133 \<or> n = 160)"

fun rep :: "char_class \<Rightarrow> nat \<Rightarrow> nat option \<Rightarrow> char option \<Rightarrow> string \<Rightarrow> (char option \<times> string) list" where
  "rep cl lo hi prev [] = (if lo = 0 then [(prev, [])] else [])"
| "rep cl lo hi prev (c # cs) =
     (if in_class cl c \<and> hi \<noteq> Some 0
      then rep cl (lo - 1) (map_option (\<lambda>h. h - 1) hi) (Some c) cs else [])
     @ (if lo = 0 then [(prev, c # cs)] else [])"

fun re_states :: "regex \<Rightarrow> mstate \<Rightarrow> mstate list" where
  "re_states (Lit c) (prev, s, caps) =
     (case s of [] \<Rightarrow> [] | c' # cs \<Rightarrow> if c' = c then [(Some c', cs, caps)] else [])"
| "re_states (Rep cl lo hi) (prev, s, caps) = map (\<lambda>(p, r). (p, r, caps)) (rep cl lo hi prev s)"
| "re_states (Seq a b) st = concat (map (re_states b) (re_states a st))"
| "re_states (Alt a b) st = re_states a st @ re_states b st"
| "re_states (Opt a) st = re_states a st @ [st]"
| "re_states (Grp n a) (prev, s, caps) =
     map (\<lambda>(p, r, cs). (p, r, (n, take (length s - length r) s) # cs)) (re_states a (prev, s, caps))"
| "re_states Bnd (prev, s, caps) =
     (if (case prev of None \<Rightarrow> False | Some c \<Rightarrow> is_word c) \<noteq> (case s of [] \<Rightarrow> False | c # _ \<Rightarrow> is_word c)
      then [(prev, s, caps)] else [])"
| "re_states Bol (prev, s, caps) = (if prev = None then [(prev, s, caps)] else [])"
| "re_states Eol (prev, s, caps) = (if s = [] \<or> s = [CHR 0x0A] then [(prev, s, caps)] else [])"

text \<open>A match object: \<open>start()\<close>, \<open>end()\<close>, \<open>group(0)\<close> and the numbered groups.\<close>

record re_match =
  mt_start :: nat
  mt_end :: nat
  mt_group0 :: string
  mt_groups :: "(nat \<times> string) list"

definition group :: "re_match \<Rightarrow> nat \<Rightarrow> string option" where
  "group mt n = map_of (mt_groups mt) n"

text \<open>
  \<open>re.search\<close> from position \<open>i\<close> of the subject, the character before being
  \<open>prev\<close>: the first position at which a match attempt succeeds.
\<close>

fun search_from :: "regex \<Rightarrow> nat \<Rightarrow> char option \<Rightarrow> string \<Rightarrow> re_match option" where
  "search_from r i prev s =
     (case re_states r (prev, s, []) of
        (p, rest, caps) # _ \<Rightarrow>
          Some \<lparr> mt_start = i, mt_end = i + (length s - length rest),
                 mt_group0 = take (length s - length rest) s, mt_groups = caps \<rparr>
      | [] \<Rightarrow> (case s of [] \<Rightarrow> None | c # cs \<Rightarrow> search_from r (Suc i) (Some c) cs))"

declare search_from.simps [simp del]

definition re_search :: "regex \<Rightarrow> string \<Rightarrow> re_match option" where
  "re_search r s = search_from r 0 None s"

text \<open>\<open>re.match\<close>: a match attempt at position 0 only.\<close>

definition re_match_at0 :: "regex \<Rightarrow> string \<Rightarrow> re_match option" where
  "re_match_at0 r s =
     (case re_states r (None, s, []) of
        (p, rest, caps) # _ \<Rightarrow>
          Some \<lparr> mt_start = 0, mt_end = length s - length rest,
                 mt_group0 = take (length s - length rest) s, mt_groups = caps \<rparr>
      | [] \<Rightarrow> None)"

text \<open>A literal string followed by \<open>r\<close>.\<close>

fun lits :: "string \<Rightarrow> regex \<Rightarrow> regex" where
  "lits [] r = r"
| "lits (c # cs) r = Seq (Lit c) (lits cs r)"

definition one :: "char \<Rightarrow> char \<times> char" where
  "one c = (c, c)"

text \<open>
  \<open>re.findall\<close> for a pattern without groups, and \<open>re.sub\<close> with a function as
  replacement: the matches from left to right, each search starting where the previous
  match ended.  After an empty match the scan moves on by one character; no pattern of
  the sources matches the empty string.
\<close>

function findall :: "regex \<Rightarrow> char option \<Rightarrow> string \<Rightarrow> string list" where
  "findall r prev [] = (case search_from r 0 prev [] of None \<Rightarrow> [] | Some mt \<Rightarrow> [mt_group0 mt])"
| "findall r prev (c # cs) =
     (case search_from r 0 prev (c # cs) of
        None \<Rightarrow> []
      | Some mt \<Rightarrow>
          (let k = (if mt_end mt \<le> mt_start mt then Suc (mt_start mt) else mt_end mt)
           in mt_group0 mt # findall r (Some (last (take k (c # cs)))) (drop k (c # cs))))"
  by pat_completeness auto
termination
  by (relation "measure (\<lambda>(r, prev, s). length s)") auto

function re_sub :: "regex \<Rightarrow> (re_match \<Rightarrow> string) \<Rightarrow> char option \<Rightarrow> string \<Rightarrow> string" where
  "re_sub r repl prev [] = (case search_from r 0 prev [] of None \<Rightarrow> [] | Some mt \<Rightarrow> repl mt)"
| "re_sub r repl prev (c # cs) =
     (case search_from r 0 prev (c # cs) of
        None \<Rightarrow> c # cs
      | Some mt \<Rightarrow>
          (if mt_end mt \<le> mt_start mt
           then take (mt_start mt) (c # cs) @ repl mt @ take 1 (drop (mt_start mt) (c # cs)) @
                re_sub r repl (Some (last (take (Suc (mt_start mt)) (c # cs)))) (drop (Suc (mt_start mt)) (c # cs))
           else take (mt_start mt) (c # cs) @ repl mt @
                re_sub r repl (Some (last (take (mt_end mt) (c # cs)))) (drop (mt_end mt) (c # cs))))"
  by pat_completeness auto
termination
  by (relation "measure (\<lambda>(r, repl, prev, s). length s)") auto

subsection \<open>\<open>extract_urls\<close> (src/src/utils.py, lines 71 to 74)\<close>

text \<open>
  The pattern
  \<^verbatim>\<open>https?://(?:www\.)?[-a-zA-Z0-9@:%._\+~#=]{1,256}\.[a-zA-Z0-9()]{1,6}\b(?:[-a-zA-Z0-9()@:%_\+.~#?&\/=]*)\<close>.
\<close>

definition alnum :: "(char \<times> char) list" where
  "alnum = [(CHR ''a'', CHR ''z''), (CHR ''A'', CHR ''Z''), (CHR ''0'', CHR ''9'')]"

definition url_pattern :: regex where
  "url_pattern =
     lits ''http'' (Seq (Rep (False, [one CHR ''s'']) 0 (Some 1)) (lits ''://''
       (Seq (Opt (lits ''www'' (Lit CHR ''.'')))
       (Seq (Rep (False, one CHR ''-'' # alnum @ map one ''@:%._+~#='') 1 (Some 256))
       (Seq (Lit CHR ''.'')
       (Seq (Rep (False, alnum @ map one ''()'') 1 (Some 6))
       (Seq Bnd
            (Rep (False, one CHR ''-'' # alnum @ map one ''()@:%_+.~#?&/='') 0 None))))))))"

definition extract_urls :: "string \<Rightarrow> string list" where
  "extract_urls text = findall url_pattern None text"

section \<open>Markdown to blocks (src/src/notion_utils.py)\<close>

text \<open>
  A rich text item is a dictionary of one of four shapes: plain content, content with a
  link URL, content with the annotation bold, content with the annotation italic.
\<close>

datatype rich_text_item =
    Plain string
  | Link string string
  | Bold string
  | Italic string

datatype pattern_type = link | bold | italic

text \<open>The three patterns of \<open>parse_rich_text_with_links\<close>, in the order of the source.\<close>

definition link_pattern :: regex where
  "link_pattern =
     Seq (Lit CHR ''['') (Seq (Grp 1 (Rep (True, [one CHR '']'']) 1 None)) (Seq (Lit CHR '']'')
       (Seq (Lit CHR ''('') (Seq (Grp 2 (Rep (True, [one CHR '')'']) 1 None)) (Lit CHR '')'')))))"

definition bold_pattern :: regex where
  "bold_pattern =
     Seq (Lit CHR ''*'') (Seq (Lit CHR ''*'') (Seq (Grp 1 (Rep (True, [one CHR ''*'']) 1 None))
       (Seq (Lit CHR ''*'') (Lit CHR ''*''))))"

definition italic_pattern :: regex where
  "italic_pattern =
     Seq (Lit CHR ''*'') (Seq (Grp 1 (Rep (True, [one CHR ''*'']) 1 None)) (Lit CHR ''*''))"

definition patterns :: "(regex \<times> pattern_type) list" where
  "patterns = [(link_pattern, link), (bold_pattern, bold), (italic_pattern, italic)]"

text \<open>
  One round of the \<open>for pattern, pattern_type in patterns\<close> loop (lines 48 to 55) on
  the triple \<open>(next_match, next_pattern_type, next_pos)\<close>.
\<close>

definition try_pattern ::
  "string \<Rightarrow> nat \<Rightarrow> re_match option \<times> pattern_type option \<times> nat \<Rightarrow> regex \<times> pattern_type
     \<Rightarrow> re_match option \<times> pattern_type option \<times> nat" where
  "try_pattern text current_pos acc p =
     (case acc of (next_match, next_pattern_type, next_pos) \<Rightarrow>
        (case re_search (fst p) (drop current_pos text) of
           None \<Rightarrow> acc
         | Some mt \<Rightarrow>
             (let match_start = current_pos + mt_start mt
              in if match_start < next_pos then (Some mt, Some (snd p), match_start) else acc)))"

definition find_next :: "string \<Rightarrow> nat \<Rightarrow> re_match option \<times> pattern_type option \<times> nat" where
  "find_next text current_pos = foldl (try_pattern text current_pos) (None, None, length text) patterns"

text \<open>The item appended for a match (lines 74 to 101); a group that did not take part
  in the match would make the content \<open>None\<close>, which is \<open>None\<close> here too.\<close>

definition pattern_item :: "pattern_type \<Rightarrow> re_match \<Rightarrow> rich_text_item option" where
  "pattern_item ty mt =
     (case ty of
        link \<Rightarrow> (case (group mt 1, group mt 2) of (Some t, Some u) \<Rightarrow> Some (Link t u) | _ \<Rightarrow> None)
      | bold \<Rightarrow> map_option Bold (group mt 1)
      | italic \<Rightarrow> map_option Italic (group mt 1))"

text \<open>
  The \<open>while current_pos < len(text)\<close> loop.  The result is \<open>None\<close> when the source
  would not return a list of items: a round that does not move \<open>current_pos\<close> forward
  repeats forever.
\<close>

function parse_loop :: "string \<Rightarrow> nat \<Rightarrow> rich_text_item list \<Rightarrow> rich_text_item list option" where
  "parse_loop text current_pos rich_text =
     (if current_pos < length text then
        (case find_next text current_pos of
           (None, _, _) \<Rightarrow> Some (rich_text @ [Plain (drop current_pos text)])
         | (Some mt, None, _) \<Rightarrow> None
         | (Some mt, Some ty, next_pos) \<Rightarrow>
             (case pattern_item ty mt of
                None \<Rightarrow> None
              | Some item \<Rightarrow>
                  (let before = (if next_pos > current_pos
                                 then [Plain (take (next_pos - current_pos) (drop current_pos text))] else []);
                       new_pos = next_pos + length (mt_group0 mt)
                   in if new_pos \<le> current_pos then None
                      else parse_loop text new_pos (rich_text @ before @ [item]))))
      else Some rich_text)"
  by pat_completeness auto
termination
  by (relation "measure (\<lambda>(text, current_pos, rich_text). length text - current_pos)") auto

declare parse_loop.simps [simp del]

definition parse_rich_text_with_links :: "string \<Rightarrow> rich_text_item list option" where
  "parse_rich_text_with_links text =
     map_option (\<lambda>rich_text. if rich_text \<noteq> [] then rich_text else [Plain text]) (parse_loop text 0 [])"

subsection \<open>\<open>convert_markdown_to_blocks\<close>\<close>

datatype block =
    Heading nat "rich_text_item list"
  | Bulleted_list_item "rich_text_item list"
  | Numbered_list_item "rich_text_item list"
  | Code "rich_text_item list"
  | Paragraph "rich_text_item list"

text \<open>\<open>str.split\<close> on one character, \<open>str.strip\<close>, \<open>str.startswith\<close>.\<close>

fun split :: "char \<Rightarrow> string \<Rightarrow> string list" where
  "split sep [] = [[]]"
| "split sep (c # cs) =
     (if c = sep then [] # split sep cs
      else (case split sep cs of [] \<Rightarrow> [[c]] | l # ls \<Rightarrow> (c # l) # ls))"

definition strip :: "string \<Rightarrow> string" where
  "strip s = rev (dropWhile is_space (rev (dropWhile is_space s)))"

definition startswith :: "string \<Rightarrow> string \<Rightarrow> bool" where
  "startswith s p = (take (length p) s = p)"

text \<open>
  The patterns \<^verbatim>\<open>^#+\<close>, \<^verbatim>\<open>\*\*|\*|\[([^\]]+)\]\(([^)]+)\)\<close> and
  \<^verbatim>\<open>^\d+\.\s+(.+)$\<close>; \<open>\s\<close> is the class of \<open>is_space\<close>.
\<close>

definition hashes_pattern :: regex where
  "hashes_pattern = Seq Bol (Rep (False, [one CHR ''#'']) 1 None)"

definition markup_pattern :: regex where
  "markup_pattern = Alt (Seq (Lit CHR ''*'') (Lit CHR ''*'')) (Alt (Lit CHR ''*'') link_pattern)"

definition space_class :: char_class where
  "space_class = (False, [(CHR 0x09, CHR 0x0D), (CHR 0x1C, CHR 0x20), one (CHR 0x85), one (CHR 0xA0)])"

definition numbered_pattern :: regex where
  "numbered_pattern =
     Seq Bol (Seq (Rep (False, [(CHR ''0'', CHR ''9'')]) 1 None) (Seq (Lit CHR ''.'')
       (Seq (Rep space_class 1 None) (Seq (Grp 1 (Rep (True, [one (CHR 0x0A)]) 1 None)) Eol))))"

text \<open>
  The body of the loop over the lines: \<open>None\<close> in the outer option is \<open>continue\<close> on a
  blank line; \<open>None\<close> in the inner one means that the source does not get to append a
  block (a call that does not return, or \<open>.group()\<close> on a failed match).
\<close>

definition line_block :: "string \<Rightarrow> block option option" where
  "line_block line =
     (if strip line = [] then None
      else if startswith line ''#'' then
        Some (case re_match_at0 hashes_pattern line of
                None \<Rightarrow> None
              | Some mt \<Rightarrow>
                  (let level = length (mt_group0 mt);
                       stripped = strip (dropWhile (\<lambda>c. c = CHR ''#'') line);
                       plain = re_sub markup_pattern
                                 (\<lambda>m. case group m 1 of None \<Rightarrow> [] | Some g \<Rightarrow> g) None stripped
                   in Some (Heading (min level 3) [Plain plain])))
      else if startswith (strip line) ''- '' then
        Some (map_option Bulleted_list_item (parse_rich_text_with_links (drop 2 (strip line))))
      else
        (case re_match_at0 numbered_pattern (strip line) of
           Some numbered_match \<Rightarrow>
             Some (case group numbered_match 1 of
                     None \<Rightarrow> None
                   | Some item \<Rightarrow> map_option Numbered_list_item (parse_rich_text_with_links item))
         | None \<Rightarrow>
             if startswith (strip line) [CHR 0x60, CHR 0x60, CHR 0x60]
             then Some (Some (Code [Plain (drop 3 (strip line))]))
             else Some (map_option Paragraph (parse_rich_text_with_links line))))"

fun blocks_of_lines :: "string list \<Rightarrow> block list option" where
  "blocks_of_lines [] = Some []"
| "blocks_of_lines (line # lines) =
     (case line_block line of
        None \<Rightarrow> blocks_of_lines lines
      | Some None \<Rightarrow> None
      | Some (Some b) \<Rightarrow> map_option ((#) b) (blocks_of_lines lines))"

definition convert_markdown_to_blocks :: "string \<Rightarrow> block list option" where
  "convert_markdown_to_blocks markdown = blocks_of_lines (split (CHR 0x0A) markdown)"

section \<open>Deal classification (src/summary_generator.py)\<close>

text \<open>
  A key of a JSON object is missing, holds \<open>null\<close>, or holds a value.  \<open>d.get(key)\<close>
  gives \<open>None\<close> in the first two cases; \<open>d.get(key, default)\<close> gives the default only
  when the key is missing.  A Python value that is a string or \<open>None\<close> is a
  \<open>string option\<close>; JSON numbers are rationals.
\<close>

datatype 'a field = Absent | Null | Val 'a

definition get :: "'a field \<Rightarrow> 'a option" where
  "get f = (case f of Val v \<Rightarrow> Some v | _ \<Rightarrow> None)"

definition get_default :: "'a field \<Rightarrow> 'a \<Rightarrow> 'a option" where
  "get_default f d = (case f of Absent \<Rightarrow> Some d | Null \<Rightarrow> None | Val v \<Rightarrow> Some v)"

text \<open>Truthiness of a string or \<open>None\<close>.\<close>

definition truthy :: "string option \<Rightarrow> bool" where
  "truthy v = (case v of None \<Rightarrow> False | Some s \<Rightarrow> s \<noteq> [])"

record organization =
  org_name :: "string field"
  org_add_time :: "string field"
  org_member_count :: "string field"

record deal =
  d_id :: nat
  d_title :: "string field"
  d_value :: "rat field"
  d_status :: "string field"
  d_update_time :: "string field"
  d_won_time :: "string field"
  d_lost_time :: "string field"
  d_lost_reason :: "string field"
  d_org_id :: "organization field"

text \<open>The body of a listing response: \<open>success\<close> (false when missing) and \<open>data\<close>.\<close>

record 'a listing =
  success :: bool
  data :: "'a list field"

text \<open>An entry of a deal's flow and the object under its key \<open>data\<close>.\<close>

record flow_change =
  fc_old_value :: "string field"

record flow_item =
  fi_object_type :: "string field"
  fi_to_value :: "string field"
  fi_data :: "flow_change field"

text \<open>
  What the run is given: whether both credentials are set, the two cutoff strings
  (\<open>seven_days_ago\<close>, a date, and its ISO form with the time), the outcome of each
  request (\<open>Inl\<close> when the request or the decoding of its answer raises; the entries
  of the listing asked for with \<open>status = won\<close> may be \<open>null\<close>), the function
  \<open>get_deal_value_change\<close>, whose result is a string or \<open>None\<close>, and the rendering of
  a number in an f-string.
\<close>

record crm =
  credentials :: bool
  seven_days_ago :: string
  seven_days_ago_iso :: string
  deals_request :: "error + deal listing"
  flow_request :: "nat \<Rightarrow> error + flow_item listing"
  organizations_request :: "error + organization listing"
  won_deals_request :: "error + deal option listing"
  get_deal_value_change :: "nat \<Rightarrow> string option \<Rightarrow> string option"
  format_number :: "rat \<Rightarrow> string"

text \<open>\<open>for x in d.get('data', [])\<close>: iterating over \<open>None\<close> raises.\<close>

definition data_items :: "'a listing \<Rightarrow> error + 'a list" where
  "data_items l = (case data l of Absent \<Rightarrow> Inr [] | Null \<Rightarrow> Inl Fault | Val xs \<Rightarrow> Inr xs)"

subsection \<open>\<open>check_if_previously_won\<close> (lines 270 to 317)\<close>

fun flow_was_won :: "flow_item list \<Rightarrow> error + bool" where
  "flow_was_won [] = Inr False"
| "flow_was_won (flow_item # rest) =
     (if get (fi_object_type flow_item) = Some ''dealStatus'' \<and> get (fi_to_value flow_item) = Some ''won''
      then Inr True
      else (case fi_data flow_item of
              Val ch \<Rightarrow> if get (fc_old_value ch) = Some ''won'' then Inr True else flow_was_won rest
            | _ \<Rightarrow> Inl Fault))"

definition check_if_previously_won :: "crm \<Rightarrow> nat \<Rightarrow> bool" where
  "check_if_previously_won c deal_id =
     (if \<not> credentials c then False
      else (case flow_request c deal_id of
              Inl e \<Rightarrow> False
            | Inr flow_data \<Rightarrow>
                if \<not> success flow_data then False
                else (case data_items flow_data of
                        Inl e \<Rightarrow> False
                      | Inr items \<Rightarrow> (case flow_was_won items of Inl e \<Rightarrow> False | Inr b \<Rightarrow> b))))"

subsection \<open>\<open>filter_deals_with_value_change\<close> (lines 69 to 82)\<close>

text \<open>Comparing \<open>None\<close> with a string raises.\<close>

fun filter_deals_with_value_change :: "string \<Rightarrow> deal list \<Rightarrow> deal list \<Rightarrow> error + deal list" where
  "filter_deals_with_value_change since [] filtered_deals = Inr filtered_deals"
| "filter_deals_with_value_change since (deal # rest) filtered_deals =
     (case get (d_update_time deal) of
        None \<Rightarrow> Inl Fault
      | Some update_time \<Rightarrow>
          if update_time \<ge> since \<and> (case get (d_won_time deal) of None \<Rightarrow> False | Some won_time \<Rightarrow> won_time < since)
          then filter_deals_with_value_change since rest (filtered_deals @ [deal])
          else filter_deals_with_value_change since rest filtered_deals)"

subsection \<open>\<open>get_new_organizations\<close> (lines 84 to 128)\<close>

definition new_organization :: "organization \<Rightarrow> string option \<times> string option" where
  "new_organization org = (get_default (org_name org) ''Unnamed organization'', get_default (org_member_count org) ''?'')"

definition get_new_organizations :: "crm \<Rightarrow> (string option \<times> string option) list" where
  "get_new_organizations c =
     (if \<not> credentials c then []
      else (case organizations_request c of
              Inl e \<Rightarrow> []
            | Inr l \<Rightarrow>
                if \<not> success l then []
                else (case data_items l of
                        Inl e \<Rightarrow> []
                      | Inr orgs \<Rightarrow>
                          map new_organization
                            (filter (\<lambda>org. truthy (get (org_add_time org)) \<and>
                                           (case get (org_add_time org) of None \<Rightarrow> False
                                            | Some add_time \<Rightarrow> add_time \<ge> seven_days_ago_iso c)) orgs))))"

subsection \<open>\<open>fetch_recent_pipedrive_deals\<close> (lines 130 to 268)\<close>

text \<open>The lists the function fills, and the dictionary it returns (the early return
  for missing credentials has no key \<open>to_convert\<close>).\<close>

record buckets =
  converted :: "string list"
  churned :: "string list"
  lost_deals :: "string list"
  to_convert :: "string option list"
  new_trials :: "string option list"
  upgrades :: "string list"
  downgrades :: "string list"

record deals_result =
  r_converted :: "string list"
  r_churned :: "string list"
  r_lost_deals :: "string list"
  r_upgrades :: "string list"
  r_downgrades :: "string list"
  r_new_trials :: "string option list"
  r_to_convert :: "string option list option"
  r_new_organizations :: "(string option \<times> string option) list"

definition empty_result :: "bool \<Rightarrow> deals_result" where
  "empty_result with_to_convert =
     \<lparr> r_converted = [], r_churned = [], r_lost_deals = [], r_upgrades = [], r_downgrades = [],
       r_new_trials = [], r_to_convert = (if with_to_convert then Some [] else None),
       r_new_organizations = [] \<rparr>"

text \<open>Pieces of the f-strings: a string or \<open>None\<close>, a number or \<open>None\<close>, and the
  euro sign (its UTF-8 bytes).\<close>

definition fmt :: "string option \<Rightarrow> string" where
  "fmt v = (case v of None \<Rightarrow> ''None'' | Some s \<Rightarrow> s)"

definition fmt_num :: "crm \<Rightarrow> rat option \<Rightarrow> string" where
  "fmt_num c v = (case v of None \<Rightarrow> ''None'' | Some x \<Rightarrow> format_number c x)"

definition euro :: string where
  "euro = [CHR 0xE2, CHR 0x82, CHR 0xAC]"

text \<open>\<open>s.split(' ')[0]\<close>.\<close>

definition date_part :: "string \<Rightarrow> string" where
  "date_part s = takeWhile (\<lambda>c. c \<noteq> CHR '' '') s"

text \<open>\<open>deal.get('org_id', {}).get('name', 'Unknown company')\<close>: \<open>None.get\<close> raises.\<close>

definition deal_company_of :: "deal \<Rightarrow> error + string option" where
  "deal_company_of deal =
     (case d_org_id deal of
        Absent \<Rightarrow> Inr (Some ''Unknown company'')
      | Null \<Rightarrow> Inl Fault
      | Val org \<Rightarrow> Inr (get_default (org_name org) ''Unknown company''))"

text \<open>\<open>kw in deal_title.lower()\<close>: \<open>None.lower\<close> raises.\<close>

definition title_has :: "string \<Rightarrow> string option \<Rightarrow> error + bool" where
  "title_has kw deal_title = (case deal_title of None \<Rightarrow> Inl Fault | Some t \<Rightarrow> Inr (contains kw (lower t)))"

definition in_window_time :: "crm \<Rightarrow> string option \<Rightarrow> bool" where
  "in_window_time c t = (case t of None \<Rightarrow> False | Some s \<Rightarrow> s \<noteq> [] \<and> date_part s \<ge> seven_days_ago c)"

text \<open>The body of the \<open>try\<close> in the loop over the deals (lines 197 to 235).\<close>

definition deal_body :: "crm \<Rightarrow> deal \<Rightarrow> buckets \<Rightarrow> error + buckets" where
  "deal_body c deal b =
     (case get (d_update_time deal) of
        None \<Rightarrow> Inr b
      | Some update_time \<Rightarrow>
          if update_time = [] then Inr b
          else
            (let deal_title = get_default (d_title deal) ''Unnamed deal'';
                 deal_value = get_default (d_value deal) 0;
                 deal_status = get (d_status deal);
                 deal_id = d_id deal;
                 deal_lost_reason = get_default (d_lost_reason deal) ''No reason provided''
             in case deal_company_of deal of
                  Inl e \<Rightarrow> Inl e
                | Inr deal_company \<Rightarrow>
                    if date_part update_time < seven_days_ago c \<and> deal_status \<noteq> Some ''open'' then Inr b
                    else if deal_status = Some ''won'' then
                      (if in_window_time c (get (d_won_time deal))
                       then Inr (b\<lparr>converted := converted b @
                              [fmt deal_company @ '' +'' @ fmt_num c deal_value @ euro @ ''/mo'']\<rparr>)
                       else Inr b)
                    else if deal_status = Some ''lost'' then
                      (if in_window_time c (get (d_lost_time deal))
                       then (case title_has ''churn'' deal_title of
                               Inl e \<Rightarrow> Inl e
                             | Inr in_title \<Rightarrow>
                                 if in_title \<or> check_if_previously_won c deal_id
                                 then Inr (b\<lparr>churned := churned b @
                                        [fmt deal_company @ '' -'' @ fmt_num c deal_value @ euro @ ''/mo ('' @
                                         fmt deal_lost_reason @ '')'']\<rparr>)
                                 else Inr (b\<lparr>lost_deals := lost_deals b @
                                        [fmt deal_company @ '' ('' @ fmt deal_lost_reason @ '')'']\<rparr>))
                       else Inr b)
                    else if deal_status = Some ''open'' then
                      Inr (b\<lparr>to_convert := to_convert b @ [deal_company]\<rparr>)
                    else
                      (case title_has ''upgrade'' deal_title of
                         Inl e \<Rightarrow> Inl e
                       | Inr True \<Rightarrow>
                           Inr (b\<lparr>upgrades := upgrades b @
                                  [fmt deal_company @ '' +'' @ fmt_num c deal_value @ euro @ ''/mo'']\<rparr>)
                       | Inr False \<Rightarrow>
                           (case title_has ''downgrade'' deal_title of
                              Inl e \<Rightarrow> Inl e
                            | Inr True \<Rightarrow>
                                Inr (b\<lparr>downgrades := downgrades b @
                                       [fmt deal_company @ '' -'' @ fmt_num c deal_value @ euro @ ''/mo'']\<rparr>)
                            | Inr False \<Rightarrow>
                                (case title_has ''trial'' deal_title of
                                   Inl e \<Rightarrow> Inl e
                                 | Inr in_title \<Rightarrow>
                                     if in_title \<and> deal_status = Some ''open''
                                     then Inr (b\<lparr>new_trials := new_trials b @ [deal_company]\<rparr>)
                                     else Inr b)))))"

text \<open>One round of the loop: an exception is caught and the deal is passed over.\<close>

definition process_deal :: "crm \<Rightarrow> buckets \<Rightarrow> deal \<Rightarrow> buckets" where
  "process_deal c b deal = (case deal_body c deal b of Inl e \<Rightarrow> b | Inr b' \<Rightarrow> b')"

definition process_deals :: "crm \<Rightarrow> buckets \<Rightarrow> deal list \<Rightarrow> buckets" where
  "process_deals c b deals = foldl (process_deal c) b deals"

text \<open>Lines 165 to 173: \<open>None.startswith\<close> raises.\<close>

fun value_change_pass ::
  "crm \<Rightarrow> deal list \<Rightarrow> string list \<times> string list \<Rightarrow> error + string list \<times> string list" where
  "value_change_pass c [] acc = Inr acc"
| "value_change_pass c (deal # rest) (ups, downs) =
     (case get_deal_value_change c (d_id deal) (get (d_title deal)) of
        None \<Rightarrow> Inl Fault
      | Some deal_change \<Rightarrow>
          if startswith deal_change ''Downgrade''
          then value_change_pass c rest (ups, downs @ [deal_change])
          else value_change_pass c rest (ups @ [deal_change], downs))"

text \<open>The body of the outer \<open>try\<close> (lines 144 to 255).\<close>

definition fetch_body :: "crm \<Rightarrow> error + deals_result" where
  "fetch_body c =
     (case deals_request c of
        Inl e \<Rightarrow> Inl e
      | Inr deals_data \<Rightarrow>
          (case data_items deals_data of
             Inl e \<Rightarrow> Inl e
           | Inr deals \<Rightarrow>
               (case filter_deals_with_value_change (seven_days_ago_iso c) deals [] of
                  Inl e \<Rightarrow> Inl e
                | Inr changed \<Rightarrow>
                    (case value_change_pass c changed ([], []) of
                       Inl e \<Rightarrow> Inl e
                     | Inr (ups, downs) \<Rightarrow>
                         if \<not> success deals_data then Inr (empty_result True)
                         else
                           (let b = process_deals c
                                      \<lparr> converted = [], churned = [], lost_deals = [], to_convert = [],
                                        new_trials = [], upgrades = ups, downgrades = downs \<rparr> deals
                            in Inr \<lparr> r_converted = converted b, r_churned = churned b,
                                     r_lost_deals = lost_deals b, r_upgrades = upgrades b,
                                     r_downgrades = downgrades b, r_new_trials = new_trials b,
                                     r_to_convert = Some (to_convert b),
                                     r_new_organizations = get_new_organizations c \<rparr>)))))"

text \<open>
  The function as its caller sees it: \<open>Inr\<close> is the dictionary returned, \<open>Inl\<close> would
  be an exception that leaves the function.
\<close>

definition fetch_recent_pipedrive_deals :: "crm \<Rightarrow> error + deals_result" where
  "fetch_recent_pipedrive_deals c =
     (if \<not> credentials c then Inr (empty_result False)
      else (case fetch_body c of Inl e \<Rightarrow> Inr (empty_result True) | Inr r \<Rightarrow> Inr r))"

subsection \<open>\<open>get_won_deals\<close> (lines 47 to 67)\<close>

text \<open>\<open>get_won_deals\<close> returns \<open>data.get('data', [])\<close>, which is \<open>None\<close> for \<open>null\<close>.\<close>

definition get_won_deals :: "crm \<Rightarrow> deal option list option" where
  "get_won_deals c =
     (if \<not> credentials c then Some []
      else (case won_deals_request c of
              Inl e \<Rightarrow> Some []
            | Inr l \<Rightarrow>
                if success l
                then (case data l of Absent \<Rightarrow> Some [] | Null \<Rightarrow> None | Val xs \<Rightarrow> Some xs)
                else Some []))"

section \<open>The visible text of a line\<close>

text \<open>The text content of a rich text item.\<close>

fun item_text :: "rich_text_item \<Rightarrow> string" where
  "item_text (Plain t) = t"
| "item_text (Link t u) = t"
| "item_text (Bold t) = t"
| "item_text (Italic t) = t"

text \<open>The visible text of a line, in the words of the specification: read from left to
  right, a span \<open>[text](url)\<close> contributes its link text, a span between \<open>**\<close> and
  \<open>**\<close> or between \<open>*\<close> and \<open>*\<close> its inner text, and any other character
  itself.  A span is tried at each position in the order link, bold, italic; the text of
  a link is not empty and holds no \<open>]\<close>, its URL is not empty and holds no \<open>)\<close>,
  the inner text of a bold or italic span is not empty and holds no \<open>*\<close>.  Each
  function gives the item of the span at the head of the string and what follows it.\<close>

definition link_span :: "string \<Rightarrow> (rich_text_item \<times> string) option" where
  "link_span s =
     (case s of
        [] \<Rightarrow> None
      | c # s1 \<Rightarrow>
          if c \<noteq> CHR ''['' then None
          else
            (let t = takeWhile (\<lambda>x. x \<noteq> CHR '']'') s1;
                 tail = dropWhile (\<lambda>x. x \<noteq> CHR '']'') s1
             in if t = [] \<or> take 2 tail \<noteq> ''](''
                then None
                else
                  (let u = takeWhile (\<lambda>x. x \<noteq> CHR '')'') (drop 2 tail);
                       tail2 = dropWhile (\<lambda>x. x \<noteq> CHR '')'') (drop 2 tail)
                   in if u = [] \<or> tail2 = [] then None else Some (Link t u, drop 1 tail2))))"

definition star_span :: "nat \<Rightarrow> string \<Rightarrow> (string \<times> string) option" where
  "star_span n s =
     (if take n s \<noteq> replicate n CHR ''*'' then None
      else
        (let inner = takeWhile (\<lambda>x. x \<noteq> CHR ''*'') (drop n s);
             tail = dropWhile (\<lambda>x. x \<noteq> CHR ''*'') (drop n s)
         in if inner = [] \<or> take n tail \<noteq> replicate n CHR ''*'' then None
            else Some (inner, drop n tail)))"

definition bold_span :: "string \<Rightarrow> (rich_text_item \<times> string) option" where
  "bold_span s = map_option (\<lambda>(inner, rest). (Bold inner, rest)) (star_span 2 s)"

definition italic_span :: "string \<Rightarrow> (rich_text_item \<times> string) option" where
  "italic_span s = map_option (\<lambda>(inner, rest). (Italic inner, rest)) (star_span 1 s)"

definition orelse :: "('a \<Rightarrow> 'b option) \<Rightarrow> ('a \<Rightarrow> 'b option) \<Rightarrow> 'a \<Rightarrow> 'b option" where
  "orelse f g s = (case f s of Some x \<Rightarrow> Some x | None \<Rightarrow> g s)"

definition span_at :: "string \<Rightarrow> (rich_text_item \<times> string) option" where
  "span_at = orelse (orelse link_span bold_span) italic_span"

function visible_text :: "string \<Rightarrow> string" where
  "visible_text [] = []"
| "visible_text (c # cs) =
     (case span_at (c # cs) of
        Some (item, rest) \<Rightarrow> item_text item @ visible_text rest
      | None \<Rightarrow> c # visible_text cs)"
  by pat_completeness auto
termination
proof (relation "measure length")
  show "wf (measure length)" by simp
next
  fix c :: char and cs x2 item rest
  assume sp: "span_at (c # cs) = Some x2" and x2: "(item, rest) = x2"
  have drop_le: "length (dropWhile P xs) \<le> length xs" for P and xs :: string
    by (rule length_dropWhile_le)
  have star: "length r < length s"
    if "star_span n s = Some (i, r)" and "0 < n" for n s i r
  proof -
    let ?tail = "dropWhile (\<lambda>x. x \<noteq> CHR ''*'') (drop n s)"
    from that have r: "r = drop n ?tail" and "take n s = replicate n CHR ''*''"
      by (auto simp: star_span_def Let_def split: if_splits)
    then have "n \<le> length s" by (metis length_replicate length_take min.cobounded1 min_def nat_le_linear take_all)
    with drop_le[of "\<lambda>x. x \<noteq> CHR ''*''" "drop n s"] r that(2) show ?thesis
      using that(1) by (auto simp: star_span_def Let_def split: if_splits)
  qed
  have lnk: "length r < length s" if "link_span s = Some (i, r)" for s i r
  proof -
    from that obtain s1 where s: "s = CHR ''['' # s1"
      by (auto simp: link_span_def split: list.splits if_splits)
    let ?tail = "dropWhile (\<lambda>x. x \<noteq> CHR '']'') s1"
    let ?tail2 = "dropWhile (\<lambda>x. x \<noteq> CHR '')'') (drop 2 ?tail)"
    from that s have "r = drop 1 ?tail2"
      by (auto simp: link_span_def Let_def split: if_splits)
    moreover have "length ?tail2 \<le> length s1"
      using drop_le[of "\<lambda>x. x \<noteq> CHR '')''" "drop 2 ?tail"] drop_le[of "\<lambda>x. x \<noteq> CHR '']''" s1] by simp
    ultimately show ?thesis using s by simp
  qed
  from sp x2 have "length rest < length (c # cs)"
    by (auto simp: span_at_def orelse_def bold_span_def italic_span_def
             split: option.splits dest: lnk star)
  then show "(rest, c # cs) \<in> measure length" by simp
next
  show "\<And>c cs. (cs, c # cs) \<in> measure length" by simp
qed

text \<open>The first position of a string at which a span starts, with the span.\<close>

fun first_span :: "(string \<Rightarrow> ('a \<times> string) option) \<Rightarrow> string \<Rightarrow> (nat \<times> 'a \<times> string) option" where
  "first_span f [] = map_option (\<lambda>(x, rest). (0, x, rest)) (f [])"
| "first_span f (c # cs) =
     (case f (c # cs) of
        Some (x, rest) \<Rightarrow> Some (0, x, rest)
      | None \<Rightarrow> map_option (\<lambda>(i, x, rest). (Suc i, x, rest)) (first_span f cs))"

text \<open>The groups, the pattern type and the match object of a span found at position
  \<open>k\<close> of \<open>s\<close>, the search having started at \<open>i\<close>.\<close>

fun item_groups :: "rich_text_item \<Rightarrow> (nat \<times> string) list" where
  "item_groups (Plain t) = []"
| "item_groups (Link t u) = [(2, u), (1, t)]"
| "item_groups (Bold t) = [(1, t)]"
| "item_groups (Italic t) = [(1, t)]"

fun item_type :: "rich_text_item \<Rightarrow> pattern_type option" where
  "item_type (Plain t) = None"
| "item_type (Link t u) = Some link"
| "item_type (Bold t) = Some bold"
| "item_type (Italic t) = Some italic"

definition span_match :: "nat \<Rightarrow> string \<Rightarrow> nat \<times> rich_text_item \<times> string \<Rightarrow> re_match" where
  "span_match i s = (\<lambda>(k, x, rest).
     \<lparr> mt_start = i + k, mt_end = i + k + (length s - k - length rest),
       mt_group0 = take (length s - k - length rest) (drop k s), mt_groups = item_groups x \<rparr>)"

text \<open>The place of a pattern type in the list \<open>patterns\<close>.\<close>

fun priority :: "pattern_type \<Rightarrow> nat" where
  "priority link = 0"
| "priority bold = 1"
| "priority italic = 2"

section \<open>Example inputs\<close>

text \<open>
  A run at 2024-01-10T00:00:00 UTC looking back seven days: a recent message, a
  message from before the cutoff, a message listed after it, and a thread's first
  message, which holds a link to the code host.
\<close>

definition now0 :: int where
  "now0 = 1704844800000000"

definition msg_recent :: raw_message where
  "msg_recent =
     \<lparr> m_id = 11, m_content = ''hello http://x.io/a'', m_author_name = ''ann'', m_author_bot = False,
       m_created_at = 1704672000000000, m_attachments = [], m_embeds = [] \<rparr>"

definition msg_old :: raw_message where
  "msg_old =
     \<lparr> m_id = 5, m_content = ''old'', m_author_name = ''bob'', m_author_bot = False,
       m_created_at = 1704067200000000, m_attachments = [], m_embeds = [] \<rparr>"

definition msg_after :: raw_message where
  "msg_after =
     \<lparr> m_id = 3, m_content = ''late'', m_author_name = ''cy'', m_author_bot = False,
       m_created_at = 1704758400000000, m_attachments = [], m_embeds = [] \<rparr>"

definition msg_origin :: raw_message where
  "msg_origin =
     \<lparr> m_id = 2, m_content = ''see https://github.com/a/b'', m_author_name = ''dee'', m_author_bot = False,
       m_created_at = 1704758400000000, m_attachments = [], m_embeds = [] \<rparr>"

definition thread1 :: channel where
  "thread1 =
     \<lparr> ch_name = ''dev'', ch_history = (\<lambda>before. Inr [msg_recent]),
       ch_parent_fetch_message = Inr msg_origin \<rparr>"

definition thread_faulty :: channel where
  "thread_faulty =
     \<lparr> ch_name = ''dev'', ch_history = (\<lambda>before. Inl Fault),
       ch_parent_fetch_message = Inr msg_origin \<rparr>"

definition channel1 :: channel where
  "channel1 =
     \<lparr> ch_name = ''dev'', ch_history = (\<lambda>before. Inr [msg_recent, msg_old, msg_after]),
       ch_parent_fetch_message = Inl Fault \<rparr>"

definition rec_recent :: "bool \<Rightarrow> string option \<Rightarrow> MessageData" where
  "rec_recent is_thr tname =
     \<lparr> msg_id = ''11'', content = ''hello http://x.io/a'', author = ''ann'',
       timestamp = ''2024-01-08T00:00:00+00:00'', attachments = [], embeds = 0,
       channel_name = ''dev'', is_thread = is_thr, thread_name = tname, urls = [''http://x.io/a''] \<rparr>"

definition rec_origin :: MessageData where
  "rec_origin =
     \<lparr> msg_id = ''2'', content = ''[Thread Starter] see https://github.com/a/b'', author = ''dee'',
       timestamp = ''2024-01-09T00:00:00+00:00'', attachments = [], embeds = 0,
       channel_name = ''dev'', is_thread = True, thread_name = Some ''topic'',
       urls = [''https://github.com/a/b''] \<rparr>"

text \<open>
  A thread as the platform serves it: the first message is older than the replies, the
  ids grow with the creation times, and a page lists the newest reply first.
\<close>

definition msg_first :: raw_message where
  "msg_first =
     \<lparr> m_id = 100, m_content = ''kickoff'', m_author_name = ''dee'', m_author_bot = False,
       m_created_at = 1704153600000000, m_attachments = [], m_embeds = [] \<rparr>"

definition reply_a :: raw_message where
  "reply_a =
     \<lparr> m_id = 200, m_content = ''first reply'', m_author_name = ''ann'', m_author_bot = False,
       m_created_at = 1704672000000000, m_attachments = [], m_embeds = [] \<rparr>"

definition reply_b :: raw_message where
  "reply_b =
     \<lparr> m_id = 300, m_content = ''second reply'', m_author_name = ''bob'', m_author_bot = False,
       m_created_at = 1704758400000000, m_attachments = [], m_embeds = [] \<rparr>"

definition thread2 :: channel where
  "thread2 =
     \<lparr> ch_name = ''dev'', ch_history = (\<lambda>before. Inr [reply_b, reply_a]),
       ch_parent_fetch_message = Inr msg_first \<rparr>"

definition thread2_out :: "MessageData list" where
  "thread2_out =
     [\<lparr> msg_id = ''100'', content = ''[Thread Starter] kickoff'', author = ''dee'',
        timestamp = ''2024-01-02T00:00:00+00:00'', attachments = [], embeds = 0,
        channel_name = ''dev'', is_thread = True, thread_name = Some ''topic'', urls = [] \<rparr>,
      \<lparr> msg_id = ''200'', content = ''first reply'', author = ''ann'',
        timestamp = ''2024-01-08T00:00:00+00:00'', attachments = [], embeds = 0,
        channel_name = ''dev'', is_thread = True, thread_name = Some ''topic'', urls = [] \<rparr>,
      \<lparr> msg_id = ''300'', content = ''second reply'', author = ''bob'',
        timestamp = ''2024-01-09T00:00:00+00:00'', attachments = [], embeds = 0,
        channel_name = ''dev'', is_thread = True, thread_name = Some ''topic'', urls = [] \<rparr>]"

text \<open>The line of the scenario.\<close>

definition example_line :: string where
  "example_line = ''**Bold** and *italic* and [link](http://x)''"

text \<open>A rendering of whole non-negative numbers, for the examples.\<close>

definition format_whole :: "rat \<Rightarrow> string" where
  "format_whole x = str_nat (nat \<lfloor>x\<rfloor>)"

text \<open>Deals and organizations of the examples: a deal lost inside the window with churn in its
  title, a deal lost inside the window whose title has no churn in it, an open deal whose
  title holds both trial and upgrade, and a deal won long ago whose value changed lately.\<close>

definition acme :: organization where
  "acme = \<lparr> org_name = Val ''Acme'', org_add_time = Absent, org_member_count = Absent \<rparr>"

definition deal_churn :: deal where
  "deal_churn =
     \<lparr> d_id = 7, d_title = Val ''Churn risk Co'', d_value = Val 100, d_status = Val ''lost'',
       d_update_time = Val ''2024-01-08 10:00:00'', d_won_time = Null,
       d_lost_time = Val ''2024-01-08 10:00:00'', d_lost_reason = Val ''price'', d_org_id = Val acme \<rparr>"


definition deal_open_trial :: deal where
  "deal_open_trial =
     \<lparr> d_id = 8, d_title = Val ''Trial upgrade'', d_value = Val 50, d_status = Val ''open'',
       d_update_time = Val ''2023-11-01 10:00:00'', d_won_time = Null,
       d_lost_time = Null, d_lost_reason = Null, d_org_id = Val acme \<rparr>"

definition deal_won_old :: deal where
  "deal_won_old =
     \<lparr> d_id = 9, d_title = Val ''Big Co'', d_value = Val 200, d_status = Val ''won'',
       d_update_time = Val ''2024-01-08 10:00:00'', d_won_time = Val ''2023-06-01 10:00:00'',
       d_lost_time = Null, d_lost_reason = Null, d_org_id = Val acme \<rparr>"

definition org_new :: organization where
  "org_new = \<lparr> org_name = Val ''NewCo'', org_add_time = Val ''2024-01-09 08:00:00'', org_member_count = Absent \<rparr>"

text \<open>A run whose history lookup reports no earlier won state for any deal.\<close>

definition crm0 :: crm where
  "crm0 =
     \<lparr> credentials = True, seven_days_ago = ''2024-01-03'',
       seven_days_ago_iso = ''2024-01-03T00:00:00+00:00'',
       deals_request = Inr \<lparr> success = True, data = Val [deal_churn, deal_open_trial, deal_won_old] \<rparr>,
       flow_request = (\<lambda>deal_id. Inr \<lparr> success = True, data = Val [] \<rparr>),
       organizations_request = Inr \<lparr> success = True, data = Val [org_new] \<rparr>,
       won_deals_request = Inr \<lparr> success = True, data = Val [Some deal_won_old, None, Some (deal_won_old\<lparr> d_value := Val (5 / 2) \<rparr>)] \<rparr>,
       get_deal_value_change = (\<lambda>deal_id deal_title. if deal_id = 9 then Some ''Upgrade: Big Co'' else None),
       format_number = format_whole \<rparr>"




definition crm_no_change :: crm where
  "crm_no_change = crm0\<lparr> get_deal_value_change := (\<lambda>deal_id deal_title. None) \<rparr>"


section \<open>Notions used in the properties\<close>

text \<open>The deals the listing request yields, the empty list when it faults.\<close>

definition listed_deals :: "crm \<Rightarrow> deal list" where
  "listed_deals c =
     (case deals_request c of
        Inl e \<Rightarrow> []
      | Inr l \<Rightarrow> (case data_items l of Inl e \<Rightarrow> [] | Inr deals \<Rightarrow> deals))"

text \<open>The lists before the first deal, when the value-change pass has found nothing.\<close>

definition empty_buckets :: buckets where
  "empty_buckets =
     \<lparr> converted = [], churned = [], lost_deals = [], to_convert = [], new_trials = [],
       upgrades = [], downgrades = [] \<rparr>"

text \<open>The string appended to \<open>churned\<close> (line 225).\<close>

definition churned_entry :: "crm \<Rightarrow> deal \<Rightarrow> string option \<Rightarrow> string" where
  "churned_entry c deal company =
     fmt company @ '' -'' @ fmt_num c (get_default (d_value deal) 0) @ euro @ ''/mo ('' @
     fmt (get_default (d_lost_reason deal) ''No reason provided'') @ '')''"


text \<open>The run reaches the loop over the deals (line 195): the credentials are set, the
  listing request answers with success and a list, and the value-change pass of lines
  165 to 172 raises nothing.\<close>

definition reaches_loop :: "crm \<Rightarrow> bool" where
  "reaches_loop c =
     (credentials c \<and>
      (case deals_request c of
         Inl e \<Rightarrow> False
       | Inr deals_data \<Rightarrow>
           success deals_data \<and>
           (case data_items deals_data of
              Inl e \<Rightarrow> False
            | Inr deals \<Rightarrow>
                (case filter_deals_with_value_change (seven_days_ago_iso c) deals [] of
                   Inl e \<Rightarrow> False
                 | Inr changed \<Rightarrow>
                     (case value_change_pass c changed ([], []) of Inl e \<Rightarrow> False | Inr acc \<Rightarrow> True)))))"

text \<open>The deal is not passed over for its update time (lines 198 to 212): the time is there
  and its date is not before the start of the window.\<close>

definition passes_gate :: "crm \<Rightarrow> deal \<Rightarrow> bool" where
  "passes_gate c deal =
     (case get (d_update_time deal) of
        None \<Rightarrow> False
      | Some update_time \<Rightarrow> update_time \<noteq> [] \<and> \<not> date_part update_time < seven_days_ago c)"

text \<open>What one round of the loop appends for a deal.\<close>

definition deal_entries :: "crm \<Rightarrow> deal \<Rightarrow> buckets" where
  "deal_entries c deal = process_deal c empty_buckets deal"


text \<open>On the platform a thread's first message is created before the replies in the
  thread: its timestamp is not later than that of any message a page of the thread's
  history holds.  For a channel, and for a thread whose first message is missing or
  written by a bot, nothing is asked.\<close>

definition origin_not_later :: "(int \<Rightarrow> string) \<Rightarrow> channel \<Rightarrow> bool \<Rightarrow> bool" where
  "origin_not_later isoformat ch is_thr =
     (\<forall>f before page message.
        thread_first_message ch is_thr = Some f \<and> \<not> m_author_bot f \<and>
        ch_history ch before = Inr page \<and> message \<in> set page
        \<longrightarrow> isoformat (m_created_at f) \<le> isoformat (m_created_at message))"


section \<open>Properties of the message harvester\<close>

lemma digit_char_inj: "a < 10 \<Longrightarrow> b < 10 \<Longrightarrow> digit_char a = digit_char b \<Longrightarrow> a = b"
proof -
  assume a: "a < 10" and b: "b < 10" and eq: "digit_char a = digit_char b"
  from eq have "(of_char (char_of (48 + a)) :: nat) = of_char (char_of (48 + b))"
    by (simp add: digit_char_def)
  then have "(48 + a) mod 256 = (48 + b) mod 256" by simp
  with a b show "a = b" by simp
qed

lemma str_nat_nonempty: "str_nat n \<noteq> []"
  by (subst str_nat.simps) simp

lemma str_nat_inj: "str_nat n = str_nat k \<Longrightarrow> n = k"
proof (induction n arbitrary: k rule: str_nat.induct)
  case (1 n)
  show ?case
  proof (cases "n < 10")
    case small: True
    show ?thesis
    proof (cases "k < 10")
      case True
      with small "1.prems" have "digit_char n = digit_char k"
        by (subst (asm) (1 2) str_nat.simps) simp
      with small True show ?thesis by (rule digit_char_inj)
    next
      case False
      with small "1.prems" have "[digit_char n] = str_nat (k div 10) @ [digit_char (k mod 10)]"
        by (subst (asm) (1 2) str_nat.simps) simp
      with str_nat_nonempty[of "k div 10"] show ?thesis by (cases "str_nat (k div 10)") auto
    qed
  next
    case big: False
    show ?thesis
    proof (cases "k < 10")
      case True
      with big "1.prems" have "str_nat (n div 10) @ [digit_char (n mod 10)] = [digit_char k]"
        by (subst (asm) (1 2) str_nat.simps) simp
      with str_nat_nonempty[of "n div 10"] show ?thesis by (cases "str_nat (n div 10)") auto
    next
      case False
      with big "1.prems"
      have "str_nat (n div 10) @ [digit_char (n mod 10)] = str_nat (k div 10) @ [digit_char (k mod 10)]"
        by (subst (asm) (1 2) str_nat.simps) simp
      then have hi: "str_nat (n div 10) = str_nat (k div 10)"
        and lo: "digit_char (n mod 10) = digit_char (k mod 10)" by auto
      from "1.IH"[OF big hi] have "n div 10 = k div 10" .
      moreover from lo have "n mod 10 = k mod 10" by (intro digit_char_inj) auto
      ultimately show ?thesis by (metis div_mult_mod_eq)
    qed
  qed
qed

lemma process_page_eq:
  "process_page mk cutoff is_thr fm page acc =
     (acc @ page_records mk cutoff is_thr fm page, \<forall>m \<in> set page. \<not> m_created_at m < cutoff)"
  by (induction page arbitrary: acc) (auto simp: keep_message_def page_records_def)

lemma page_records_from:
  "\<exists>ms. page_records mk cutoff is_thr fm page = map mk ms \<and>
        (\<forall>m \<in> set ms. cutoff \<le> m_created_at m \<and> keep_message is_thr fm m)"
  unfolding page_records_def
  by (rule exI[of _ "filter (keep_message is_thr fm) (takeWhile (\<lambda>m. \<not> m_created_at m < cutoff) page)"])
     (auto dest: set_takeWhileD)

lemma fetch_loop_from:
  "fetch_loop fuel history mk cutoff is_thr fm last_id acc = Some (Inr out) \<Longrightarrow>
   \<exists>ms. out = acc @ map mk ms \<and> (\<forall>m \<in> set ms. cutoff \<le> m_created_at m \<and> keep_message is_thr fm m)"
proof (induction fuel arbitrary: last_id acc)
  case 0
  then show ?case by simp
next
  case (Suc fuel)
  show ?case
  proof (cases "history (before_option last_id)")
    case (Inl e)
    with Suc.prems show ?thesis by simp
  next
    case (Inr page)
    obtain new where new: "page_records mk cutoff is_thr fm page = map mk new"
      "\<forall>m \<in> set new. cutoff \<le> m_created_at m \<and> keep_message is_thr fm m"
      using page_records_from by blast
    show ?thesis
    proof (cases "page = []")
      case True
      with Suc.prems Inr show ?thesis by (intro exI[of _ "[]"]) simp
    next
      case False
      show ?thesis
      proof (cases "(\<forall>m \<in> set page. \<not> m_created_at m < cutoff) \<and> \<not> length page < 100")
        case True
        with Suc.prems Inr False
        have "fetch_loop fuel history mk cutoff is_thr fm (Some (m_id (last page))) (acc @ map mk new) = Some (Inr out)"
          by (simp add: process_page_eq new)
        from Suc.IH[OF this] obtain ms where
          "out = (acc @ map mk new) @ map mk ms" "\<forall>m \<in> set ms. cutoff \<le> m_created_at m \<and> keep_message is_thr fm m" by blast
        with new show ?thesis by (intro exI[of _ "new @ ms"]) auto
      next
        case stop: False
        with Suc.prems Inr False have "out = acc @ map mk new"
          by (auto simp: process_page_eq new split: if_splits)
        with new show ?thesis by blast
      qed
    qed
  qed
qed

lemma fetch_loop_stop:
  assumes "history (before_option last_id) = Inr page" and "m \<in> set page" and "m_created_at m < cutoff"
  shows "fetch_loop (Suc fuel) history mk cutoff is_thr fm last_id acc =
           Some (Inr (acc @ page_records mk cutoff is_thr fm page))"
  using assms by (auto simp: process_page_eq)

text \<open>A larger bound on the pages does not change a result, and a page of fewer than
  100 messages ends the loop.\<close>

lemma fetch_loop_more_fuel:
  "fetch_loop fuel history mk cutoff is_thr fm last_id acc = Some r \<Longrightarrow>
   fetch_loop (fuel + k) history mk cutoff is_thr fm last_id acc = Some r"
proof (induction fuel arbitrary: last_id acc)
  case 0
  then show ?case by simp
next
  case (Suc fuel)
  show ?case
  proof (cases "history (before_option last_id)")
    case (Inl e)
    with Suc.prems show ?thesis by simp
  next
    case (Inr page)
    obtain msgs more where pp: "process_page mk cutoff is_thr fm page acc = (msgs, more)"
      by (cases "process_page mk cutoff is_thr fm page acc")
    show ?thesis
    proof (cases "page \<noteq> [] \<and> more \<and> \<not> length page < 100")
      case True
      with Suc.prems Inr pp
      have "fetch_loop fuel history mk cutoff is_thr fm (Some (m_id (last page))) msgs = Some r"
        by simp
      from Suc.IH[OF this] True Inr pp show ?thesis by simp
    next
      case False
      with Suc.prems Inr pp show ?thesis by (auto split: if_splits)
    qed
  qed
qed

lemma fetch_loop_short_page:
  assumes "history (before_option last_id) = Inr page" and "length page < 100"
  shows "\<exists>r. fetch_loop (Suc fuel) history mk cutoff is_thr fm last_id acc = Some (Inr r)"
  using assms by (cases "process_page mk cutoff is_thr fm page acc") auto

lemma run_thread1:
  "fetch_messages_from_past 1 isoformat_utc extract_urls now0 thread1 7 True (Some ''topic'') =
     Some [rec_origin, rec_recent True (Some ''topic'')]"
  by code_simp

lemma run_thread1_history:
  "read_history 1 isoformat_utc extract_urls now0 thread1 7 True (Some ''topic'') =
     Some (Inr [rec_recent True (Some ''topic'')])"
  by code_simp

lemma run_channel1:
  "fetch_messages_from_past 1 isoformat_utc extract_urls now0 channel1 7 False None =
     Some [rec_recent False None]"
  by code_simp

lemma run_faulty:
  "fetch_messages_from_past 1 isoformat_utc extract_urls now0 thread_faulty 7 True (Some ''topic'') = Some []"
  by code_simp

lemma page_records_served:
  "\<exists>ms. page_records mk cutoff is_thr fm page = map mk ms \<and> set ms \<subseteq> set page"
  unfolding page_records_def
  by (rule exI[of _ "filter (keep_message is_thr fm) (takeWhile (\<lambda>m. \<not> m_created_at m < cutoff) page)"])
     (auto dest: set_takeWhileD)

lemma fetch_loop_served:
  "fetch_loop fuel history mk cutoff is_thr fm last_id acc = Some (Inr out) \<Longrightarrow>
   \<exists>ms. out = acc @ map mk ms \<and>
        (\<forall>m \<in> set ms. \<exists>before page. history before = Inr page \<and> m \<in> set page)"
proof (induction fuel arbitrary: last_id acc)
  case 0
  then show ?case by simp
next
  case (Suc fuel)
  show ?case
  proof (cases "history (before_option last_id)")
    case (Inl e)
    with Suc.prems show ?thesis by simp
  next
    case (Inr page)
    obtain new where new: "page_records mk cutoff is_thr fm page = map mk new" "set new \<subseteq> set page"
      using page_records_served by blast
    with Inr have served: "\<forall>m \<in> set new. \<exists>before page. history before = Inr page \<and> m \<in> set page"
      by blast
    show ?thesis
    proof (cases "page = []")
      case True
      with Suc.prems Inr show ?thesis by (intro exI[of _ "[]"]) simp
    next
      case False
      show ?thesis
      proof (cases "(\<forall>m \<in> set page. \<not> m_created_at m < cutoff) \<and> \<not> length page < 100")
        case True
        with Suc.prems Inr False
        have "fetch_loop fuel history mk cutoff is_thr fm (Some (m_id (last page))) (acc @ map mk new) = Some (Inr out)"
          by (simp add: process_page_eq new)
        from Suc.IH[OF this] obtain ms where
          "out = (acc @ map mk new) @ map mk ms"
          "\<forall>m \<in> set ms. \<exists>before page. history before = Inr page \<and> m \<in> set page" by blast
        with served show ?thesis by (intro exI[of _ "new @ ms"]) auto
      next
        case stop: False
        with Suc.prems Inr False have "out = acc @ map mk new"
          by (auto simp: process_page_eq new split: if_splits)
        with served show ?thesis by blast
      qed
    qed
  qed
qed

text \<open>
  Claim C1: every list the harvester returns is sorted by non-decreasing timestamp, the
  record of a thread's first message at index 0 included.  The records of the paged
  history are sorted by the code (line 151); the first message's record is put in front
  of them whatever its timestamp (line 170), and it is in order because the platform
  creates a thread's first message before the replies the history serves
  (\<open>origin_not_later\<close>).  For a channel the condition asks nothing.
\<close>

theorem harvest_sorted:
  assumes "fetch_messages_from_past fuel isoformat extract now ch days is_thr tname = Some out"
    and "origin_not_later isoformat ch is_thr"
  shows "sorted (map timestamp out)"
proof (cases "read_history fuel isoformat extract now ch days is_thr tname")
  case None
  with assms(1) show ?thesis by (simp add: fetch_messages_from_past_def)
next
  case (Some res)
  show ?thesis
  proof (cases res)
    case (Inl e)
    with Some assms(1) show ?thesis by (simp add: fetch_messages_from_past_def)
  next
    case (Inr messages)
    let ?mk = "message_data isoformat extract (ch_name ch) is_thr tname"
    let ?mkf = "first_message_data isoformat extract (ch_name ch) is_thr tname"
    have srt: "sorted (map timestamp (sort_key timestamp messages))" by simp
    from Some Inr assms(1)
    have out: "out = add_first_message ?mkf is_thr (thread_first_message ch is_thr) (sort_key timestamp messages)"
      by (simp add: fetch_messages_from_past_def)
    from Some Inr obtain ms where ms: "messages = map ?mk ms"
      "\<forall>m \<in> set ms. \<exists>before page. ch_history ch before = Inr page \<and> m \<in> set page"
      using fetch_loop_served[of fuel "ch_history ch" ?mk "cutoff_date now days" is_thr
              "thread_first_message ch is_thr" None "[]" messages]
      by (auto simp: read_history_def)
    show ?thesis
    proof (cases "thread_first_message ch is_thr")
      case None
      with out srt show ?thesis by (simp add: add_first_message_def)
    next
      case (Some f)
      show ?thesis
      proof (cases "m_author_bot f")
        case True
        with out srt Some show ?thesis by (simp add: add_first_message_def)
      next
        case False
        have "timestamp (?mkf f) \<le> t" if "t \<in> set (map timestamp (sort_key timestamp messages))" for t
        proof -
          from that ms(1) obtain m where m: "m \<in> set ms" "t = isoformat (m_created_at m)"
            by (auto simp: message_data_def)
          with ms(2) obtain before page where "ch_history ch before = Inr page" "m \<in> set page" by blast
          with assms(2) Some False have "isoformat (m_created_at f) \<le> isoformat (m_created_at m)"
            unfolding origin_not_later_def by blast
          with m(2) show ?thesis by (simp add: first_message_data_def)
        qed
        with out srt Some show ?thesis by (auto simp: add_first_message_def)
      qed
    qed
  qed
qed

lemma run_thread2:
  "fetch_messages_from_past 1 isoformat_utc extract_urls now0 thread2 7 True (Some ''topic'') = Some thread2_out"
  by code_simp

lemma thread2_origin_not_later: "origin_not_later isoformat_utc thread2 True"
proof -
  have a: "isoformat_utc (m_created_at msg_first) \<le> isoformat_utc (m_created_at reply_a)" by code_simp
  have b: "isoformat_utc (m_created_at msg_first) \<le> isoformat_utc (m_created_at reply_b)" by code_simp
  show ?thesis
    unfolding origin_not_later_def
    using a b by (auto simp: thread2_def thread_first_message_def)
qed

lemma run_thread2_channel:
  "fetch_messages_from_past 1 isoformat_utc extract_urls now0 thread2 7 False None =
     Some (map (\<lambda>r. r\<lparr>is_thread := False, thread_name := None\<rparr>) (tl thread2_out))"
  by code_simp

lemma channel_origin_not_later: "origin_not_later isoformat ch False"
  by (simp add: origin_not_later_def thread_first_message_def)

text \<open>
  C1 at the example thread, whose page lists the newer reply first: the harvest returns
  the first message's record, then the two replies, the older one first.  Read as a
  channel, the same history gives the two replies in that order.
\<close>

theorem harvest_sorted_witness:
  "fetch_messages_from_past 1 isoformat_utc extract_urls now0 thread2 7 True (Some ''topic'') = Some thread2_out \<and>
   origin_not_later isoformat_utc thread2 True \<and>
   ch_history thread2 None = Inr [reply_b, reply_a] \<and>
   map m_id [reply_b, reply_a] = [300, 200] \<and>
   map msg_id thread2_out = [''100'', ''200'', ''300''] \<and>
   map timestamp thread2_out =
     [''2024-01-02T00:00:00+00:00'', ''2024-01-08T00:00:00+00:00'', ''2024-01-09T00:00:00+00:00''] \<and>
   sorted (map timestamp thread2_out) \<and>
   origin_not_later isoformat_utc thread2 False \<and>
   sorted (map timestamp (map (\<lambda>r. r\<lparr>is_thread := False, thread_name := None\<rparr>) (tl thread2_out)))"
proof -
  from harvest_sorted[OF run_thread2 thread2_origin_not_later]
  have a: "sorted (map timestamp thread2_out)" .
  from harvest_sorted[OF run_thread2_channel channel_origin_not_later]
  have b: "sorted (map timestamp (map (\<lambda>r. r\<lparr>is_thread := False, thread_name := None\<rparr>) (tl thread2_out)))" .
  have c: "ch_history thread2 None = Inr [reply_b, reply_a]" by (simp add: thread2_def)
  have d: "map m_id [reply_b, reply_a] = [300, 200]" by (simp add: reply_a_def reply_b_def)
  have e: "map msg_id thread2_out = [''100'', ''200'', ''300'']" by (simp add: thread2_out_def)
  have f: "map timestamp thread2_out =
     [''2024-01-02T00:00:00+00:00'', ''2024-01-08T00:00:00+00:00'', ''2024-01-09T00:00:00+00:00'']"
    by (simp add: thread2_out_def)
  from a b c d e f run_thread2 thread2_origin_not_later channel_origin_not_later[of isoformat_utc thread2]
  show ?thesis by blast
qed

text \<open>
  Claim C2: every record of a returned list comes from a message that is not older than
  the cutoff, or is the record of the thread's first message; and when a page holds a
  message older than the cutoff, the loop returns after that page, whatever bound on
  further pages is left, with the records of the messages standing before the first such
  message and nothing else added.
\<close>

theorem harvest_window:
  "(fetch_messages_from_past fuel isoformat extract now ch days is_thr tname = Some out \<longrightarrow>
      (\<forall>r \<in> set out.
         (\<exists>message. r = message_data isoformat extract (ch_name ch) is_thr tname message \<and>
                    \<not> m_created_at message < cutoff_date now days) \<or>
         (\<exists>f. is_thr \<and> thread_first_message ch is_thr = Some f \<and>
              r = first_message_data isoformat extract (ch_name ch) is_thr tname f))) \<and>
   (history (before_option last_id) = Inr page \<and> old \<in> set page \<and> m_created_at old < cutoff \<longrightarrow>
      fetch_loop (Suc extra) history mk cutoff thr fm last_id acc =
        Some (Inr (acc @ map mk (filter (keep_message thr fm)
                                   (takeWhile (\<lambda>message. \<not> m_created_at message < cutoff) page)))))"
proof (intro conjI impI ballI)
  fix r
  assume ret: "fetch_messages_from_past fuel isoformat extract now ch days is_thr tname = Some out"
    and r: "r \<in> set out"
  let ?mk = "message_data isoformat extract (ch_name ch) is_thr tname"
  let ?mkf = "first_message_data isoformat extract (ch_name ch) is_thr tname"
  let ?P = "(\<exists>message. r = ?mk message \<and> \<not> m_created_at message < cutoff_date now days) \<or>
            (\<exists>f. is_thr \<and> thread_first_message ch is_thr = Some f \<and> r = ?mkf f)"
  show ?P
  proof (cases "read_history fuel isoformat extract now ch days is_thr tname")
    case None
    with ret show ?thesis by (simp add: fetch_messages_from_past_def)
  next
    case (Some res)
    show ?thesis
    proof (cases res)
      case (Inl e)
      with Some ret r show ?thesis by (simp add: fetch_messages_from_past_def)
    next
      case (Inr messages)
      with Some obtain ms where ms: "messages = map ?mk ms"
        "\<forall>m \<in> set ms. cutoff_date now days \<le> m_created_at m \<and>
                      keep_message is_thr (thread_first_message ch is_thr) m"
        using fetch_loop_from[of fuel "ch_history ch" ?mk "cutoff_date now days" is_thr
                "thread_first_message ch is_thr" None "[]" messages]
        by (auto simp: read_history_def)
      from Some Inr ret
      have out: "out = add_first_message ?mkf is_thr (thread_first_message ch is_thr) (sort_key timestamp messages)"
        by (simp add: fetch_messages_from_past_def)
      show ?thesis
      proof (cases "r \<in> set messages")
        case True
        with ms show ?thesis by fastforce
      next
        case False
        with out r show ?thesis
          by (auto simp: add_first_message_def split: option.splits if_splits)
      qed
    qed
  qed
next
  assume "history (before_option last_id) = Inr page \<and> old \<in> set page \<and> m_created_at old < cutoff"
  then show "fetch_loop (Suc extra) history mk cutoff thr fm last_id acc =
        Some (Inr (acc @ map mk (filter (keep_message thr fm)
                                   (takeWhile (\<lambda>message. \<not> m_created_at message < cutoff) page))))"
    using fetch_loop_stop[of history last_id page old cutoff extra mk thr fm acc]
    by (simp add: page_records_def)
qed

text \<open>
  C2 at the example channel, whose one page holds a recent message, an old one and
  another recent one after it: only the first is returned, after one fetch.
\<close>

theorem harvest_window_witness:
  "fetch_messages_from_past 1 isoformat_utc extract_urls now0 channel1 7 False None =
     Some [rec_recent False None] \<and>
   ((\<exists>message. rec_recent False None = message_data isoformat_utc extract_urls (ch_name channel1) False None message \<and>
               \<not> m_created_at message < cutoff_date now0 7) \<or>
    (\<exists>f. False \<and> thread_first_message channel1 False = Some f \<and>
         rec_recent False None = first_message_data isoformat_utc extract_urls (ch_name channel1) False None f)) \<and>
   ch_history channel1 (before_option None) = Inr [msg_recent, msg_old, msg_after] \<and>
   msg_old \<in> set [msg_recent, msg_old, msg_after] \<and>
   m_created_at msg_old < cutoff_date now0 7 \<and>
   fetch_loop (Suc 0) (ch_history channel1) (message_data isoformat_utc extract_urls ''dev'' False None)
     (cutoff_date now0 7) False None None [] =
     Some (Inr [message_data isoformat_utc extract_urls ''dev'' False None msg_recent])"
proof -
  have page: "ch_history channel1 (before_option None) = Inr [msg_recent, msg_old, msg_after]"
    by (simp add: channel1_def)
  have old: "m_created_at msg_old < cutoff_date now0 7"
    by (simp add: msg_old_def cutoff_date_def now0_def)
  have recent: "\<not> m_created_at msg_recent < cutoff_date now0 7"
    by (simp add: msg_recent_def cutoff_date_def now0_def)
  have keep: "keep_message False None msg_recent"
    by (simp add: keep_message_def msg_recent_def)
  note w = harvest_window[of 1 isoformat_utc extract_urls now0 channel1 7 False None
      "[rec_recent False None]" "ch_history channel1" None "[msg_recent, msg_old, msg_after]"
      msg_old "cutoff_date now0 7" 0 "message_data isoformat_utc extract_urls ''dev'' False None"
      False None "[]"]
  from w run_channel1 have first:
    "(\<exists>message. rec_recent False None = message_data isoformat_utc extract_urls (ch_name channel1) False None message \<and>
               \<not> m_created_at message < cutoff_date now0 7) \<or>
     (\<exists>f. False \<and> thread_first_message channel1 False = Some f \<and>
         rec_recent False None = first_message_data isoformat_utc extract_urls (ch_name channel1) False None f)"
    by simp
  from w page old recent keep have second:
    "fetch_loop (Suc 0) (ch_history channel1) (message_data isoformat_utc extract_urls ''dev'' False None)
       (cutoff_date now0 7) False None None [] =
       Some (Inr [message_data isoformat_utc extract_urls ''dev'' False None msg_recent])"
    by simp
  from run_channel1 first page old second show ?thesis by simp
qed

text \<open>
  Claim C3, as the code has it: for a thread whose first message is found and not written
  by a bot, and whose history is read without a fault, the returned list is the record of
  the first message, its content behind the marker, followed by the sorted records; no
  condition on its creation time is involved, and it is the only record with its id.
\<close>

theorem thread_starter_first:
  assumes "ch_parent_fetch_message ch = Inr f" and "\<not> m_author_bot f"
    and "read_history fuel isoformat extract now ch days True tname = Some (Inr paged)"
  shows "fetch_messages_from_past fuel isoformat extract now ch days True tname =
           Some (first_message_data isoformat extract (ch_name ch) True tname f # sort_key timestamp paged) \<and>
         msg_id (first_message_data isoformat extract (ch_name ch) True tname f) = str_nat (m_id f) \<and>
         content (first_message_data isoformat extract (ch_name ch) True tname f) =
           ''[Thread Starter] '' @ m_content f \<and>
         length (filter (\<lambda>r. msg_id r = str_nat (m_id f))
                   (first_message_data isoformat extract (ch_name ch) True tname f # sort_key timestamp paged)) = 1"
proof -
  let ?mk = "message_data isoformat extract (ch_name ch) True tname"
  have fm: "thread_first_message ch True = Some f"
    using assms(1) by (simp add: thread_first_message_def)
  from assms(3) obtain ms where ms: "paged = map ?mk ms"
    "\<forall>m \<in> set ms. cutoff_date now days \<le> m_created_at m \<and> keep_message True (Some f) m"
    using fetch_loop_from[of fuel "ch_history ch" ?mk "cutoff_date now days" True "Some f" None "[]" paged]
    by (auto simp: read_history_def fm)
  have "\<forall>r \<in> set paged. msg_id r \<noteq> str_nat (m_id f)"
  proof
    fix r assume "r \<in> set paged"
    with ms obtain m where m: "r = ?mk m" "m_id m \<noteq> m_id f"
      by (auto simp: keep_message_def)
    then show "msg_id r \<noteq> str_nat (m_id f)"
      by (auto simp: message_data_def dest: str_nat_inj)
  qed
  then have "filter (\<lambda>r. msg_id r = str_nat (m_id f)) (sort_key timestamp paged) = []"
    by (simp add: filter_empty_conv)
  moreover have "fetch_messages_from_past fuel isoformat extract now ch days True tname =
      Some (first_message_data isoformat extract (ch_name ch) True tname f # sort_key timestamp paged)"
    using assms by (simp add: fetch_messages_from_past_def fm add_first_message_def)
  ultimately show ?thesis by (simp add: first_message_data_def)
qed

text \<open>
  C3 at the example thread.
\<close>

theorem thread_starter_first_witness:
  "ch_parent_fetch_message thread1 = Inr msg_origin \<and> \<not> m_author_bot msg_origin \<and>
   read_history 1 isoformat_utc extract_urls now0 thread1 7 True (Some ''topic'') =
     Some (Inr [rec_recent True (Some ''topic'')]) \<and>
   fetch_messages_from_past 1 isoformat_utc extract_urls now0 thread1 7 True (Some ''topic'') =
     Some (first_message_data isoformat_utc extract_urls (ch_name thread1) True (Some ''topic'') msg_origin
           # sort_key timestamp [rec_recent True (Some ''topic'')]) \<and>
   length (filter (\<lambda>r. msg_id r = str_nat (m_id msg_origin))
             (first_message_data isoformat_utc extract_urls (ch_name thread1) True (Some ''topic'') msg_origin
              # sort_key timestamp [rec_recent True (Some ''topic'')])) = 1"
proof -
  have a: "ch_parent_fetch_message thread1 = Inr msg_origin" by (simp add: thread1_def)
  have b: "\<not> m_author_bot msg_origin" by (simp add: msg_origin_def)
  from thread_starter_first[OF a b run_thread1_history] a b run_thread1_history
  show ?thesis by blast
qed

text \<open>
  C3 as stated fails when reading the history raises: the first message is there and
  not written by a bot, and the returned list is empty.
\<close>

theorem thread_starter_first_counterexample:
  "ch_parent_fetch_message thread_faulty = Inr msg_origin \<and> \<not> m_author_bot msg_origin \<and>
   fetch_messages_from_past 1 isoformat_utc extract_urls now0 thread_faulty 7 True (Some ''topic'') = Some []"
  unfolding run_faulty by (simp add: thread_faulty_def msg_origin_def)

text \<open>
  Claim C8 at the example thread: the record of the first message keeps the link to
  github.com among its urls, since line 156 does not apply the filter of line 128.
\<close>

theorem thread_starter_keeps_github_url:
  "map_option (map urls)
     (fetch_messages_from_past 1 isoformat_utc extract_urls now0 thread1 7 True (Some ''topic'')) =
     Some [[''https://github.com/a/b''], [''http://x.io/a'']] \<and>
   contains ''github.com'' (lower ''https://github.com/a/b'')"
proof -
  have "contains ''github.com'' (lower ''https://github.com/a/b'')" by code_simp
  then show ?thesis unfolding run_thread1 by (simp add: rec_origin_def rec_recent_def)
qed

text \<open>The records built from the pages never hold such a link.\<close>

lemma paged_urls_without_github:
  "u \<in> set (urls (message_data isoformat extract cname is_thr tname message)) \<Longrightarrow>
   \<not> contains ''github.com'' (lower u)"
  by (simp add: message_data_def)

section \<open>Properties of the deal classification\<close>

text \<open>With a status among open, won, lost the title branches are not reached.\<close>

lemma process_deal_status:
  assumes "get (d_status deal) \<in> {Some ''open'', Some ''won'', Some ''lost''}"
  shows "new_trials (process_deal c b deal) = new_trials b \<and>
         upgrades (process_deal c b deal) = upgrades b \<and>
         downgrades (process_deal c b deal) = downgrades b"
  using assms
  by (auto simp: process_deal_def deal_body_def Let_def split: option.splits sum.splits)

lemma process_deals_status:
  assumes "\<forall>deal \<in> set deals. get (d_status deal) \<in> {Some ''open'', Some ''won'', Some ''lost''}"
  shows "new_trials (process_deals c b deals) = new_trials b \<and>
         upgrades (process_deals c b deals) = upgrades b \<and>
         downgrades (process_deals c b deals) = downgrades b"
  using assms unfolding process_deals_def
proof (induction deals arbitrary: b)
  case Nil
  then show ?case by simp
next
  case (Cons d ds)
  from Cons.prems have d: "get (d_status d) \<in> {Some ''open'', Some ''won'', Some ''lost''}" by simp
  from Cons.prems have ds: "\<forall>deal \<in> set ds. get (d_status deal) \<in> {Some ''open'', Some ''won'', Some ''lost''}" by simp
  from Cons.IH[OF ds, of "process_deal c b d"] process_deal_status[OF d, of c b]
  show ?case by simp
qed

text \<open>The trial branch asks for the status open, which an earlier branch has taken.\<close>

lemma process_deal_new_trials: "new_trials (process_deal c b deal) = new_trials b"
  by (auto simp: process_deal_def deal_body_def Let_def split: option.splits sum.splits bool.splits)

lemma process_deals_new_trials: "new_trials (process_deals c b deals) = new_trials b"
  unfolding process_deals_def
  by (induction deals arbitrary: b) (simp_all add: process_deal_new_trials)


text \<open>
  Claim C10: when every listed deal has the status open, won or lost, the dictionary
  returned has an empty \<open>new_trials\<close>, and its \<open>upgrades\<close> and \<open>downgrades\<close> are
  exactly the two lists of the value-change pass (or both empty, on the paths that
  return the empty dictionary): the title branches add nothing.
\<close>

theorem title_branches_unreachable:
  assumes "\<forall>deal \<in> set (listed_deals c). get (d_status deal) \<in> {Some ''open'', Some ''won'', Some ''lost''}"
  shows "\<exists>r. fetch_recent_pipedrive_deals c = Inr r \<and> r_new_trials r = [] \<and>
             ((r_upgrades r = [] \<and> r_downgrades r = []) \<or>
              (\<exists>changed. filter_deals_with_value_change (seven_days_ago_iso c) (listed_deals c) [] = Inr changed \<and>
                          value_change_pass c changed ([], []) = Inr (r_upgrades r, r_downgrades r)))"
proof (cases "credentials c")
  case False
  then show ?thesis by (simp add: fetch_recent_pipedrive_deals_def empty_result_def)
next
  case True
  show ?thesis
  proof (cases "fetch_body c")
    case (Inl e)
    with True show ?thesis by (simp add: fetch_recent_pipedrive_deals_def empty_result_def)
  next
    case (Inr r)
    with True have ret: "fetch_recent_pipedrive_deals c = Inr r"
      by (simp add: fetch_recent_pipedrive_deals_def)
    from Inr obtain l deals changed ups downs where
      l: "deals_request c = Inr l" and deals: "data_items l = Inr deals"
      and changed: "filter_deals_with_value_change (seven_days_ago_iso c) deals [] = Inr changed"
      and pass: "value_change_pass c changed ([], []) = Inr (ups, downs)"
      by (auto simp: fetch_body_def split: sum.splits)
    from l deals have ld: "listed_deals c = deals" by (simp add: listed_deals_def)
    show ?thesis
    proof (cases "success l")
      case False
      with Inr l deals changed pass have "r = empty_result True" by (simp add: fetch_body_def)
      with ret show ?thesis by (simp add: empty_result_def)
    next
      case True
      let ?b0 = "\<lparr> converted = [], churned = [], lost_deals = [], to_convert = [],
                    new_trials = [], upgrades = ups, downgrades = downs \<rparr>"
      from assms ld have st: "\<forall>deal \<in> set deals. get (d_status deal) \<in> {Some ''open'', Some ''won'', Some ''lost''}"
        by simp
      from True Inr l deals changed pass
      have r: "r_new_trials r = new_trials (process_deals c ?b0 deals)"
        "r_upgrades r = upgrades (process_deals c ?b0 deals)"
        "r_downgrades r = downgrades (process_deals c ?b0 deals)"
        by (auto simp: fetch_body_def Let_def)
      with process_deals_status[OF st, of c ?b0]
      have "r_new_trials r = [] \<and> r_upgrades r = ups \<and> r_downgrades r = downs" by simp
      with ret changed pass ld show ?thesis by auto
    qed
  qed
qed

lemma run_crm0:
  "fetch_recent_pipedrive_deals crm0 =
     Inr \<lparr> r_converted = [], r_churned = [''Acme -100'' @ euro @ ''/mo (price)''], r_lost_deals = [],
           r_upgrades = [''Upgrade: Big Co''], r_downgrades = [], r_new_trials = [],
           r_to_convert = Some [Some ''Acme''], r_new_organizations = [(Some ''NewCo'', Some ''?'')] \<rparr>"
  by code_simp

lemma listed_crm0: "listed_deals crm0 = [deal_churn, deal_open_trial, deal_won_old]"
  by (simp add: listed_deals_def crm0_def data_items_def)

lemma changed_crm0:
  "filter_deals_with_value_change (seven_days_ago_iso crm0) [deal_churn, deal_open_trial, deal_won_old] [] = Inr [deal_won_old]"
  by code_simp

lemma pass_crm0: "value_change_pass crm0 [deal_won_old] ([], []) = Inr ([''Upgrade: Big Co''], [])"
  by code_simp

text \<open>
  C10 at the example run: the open deal titled "Trial upgrade" reaches neither
  \<open>new_trials\<close> nor \<open>upgrades\<close>.
\<close>

theorem title_branches_unreachable_witness:
  "get (d_status deal_churn) \<in> {Some ''open'', Some ''won'', Some ''lost''} \<and>
   get (d_status deal_open_trial) \<in> {Some ''open'', Some ''won'', Some ''lost''} \<and>
   get (d_status deal_won_old) \<in> {Some ''open'', Some ''won'', Some ''lost''} \<and>
   listed_deals crm0 = [deal_churn, deal_open_trial, deal_won_old] \<and>
   contains ''trial'' (lower ''Trial upgrade'') \<and> contains ''upgrade'' (lower ''Trial upgrade'') \<and>
   (\<exists>r. fetch_recent_pipedrive_deals crm0 = Inr r \<and> r_new_trials r = [] \<and>
        ((r_upgrades r = [] \<and> r_downgrades r = []) \<or>
         (\<exists>changed. filter_deals_with_value_change (seven_days_ago_iso crm0) (listed_deals crm0) [] = Inr changed \<and>
                     value_change_pass crm0 changed ([], []) = Inr (r_upgrades r, r_downgrades r))))"
proof -
  have s1: "get (d_status deal_churn) \<in> {Some ''open'', Some ''won'', Some ''lost''}"
    by (simp add: deal_churn_def get_def)
  have s2: "get (d_status deal_open_trial) \<in> {Some ''open'', Some ''won'', Some ''lost''}"
    by (simp add: deal_open_trial_def get_def)
  have s3: "get (d_status deal_won_old) \<in> {Some ''open'', Some ''won'', Some ''lost''}"
    by (simp add: deal_won_old_def get_def)
  have all: "\<forall>deal \<in> set (listed_deals crm0). get (d_status deal) \<in> {Some ''open'', Some ''won'', Some ''lost''}"
    using s1 s2 s3 by (simp add: listed_crm0)
  have t: "contains ''trial'' (lower ''Trial upgrade'')" "contains ''upgrade'' (lower ''Trial upgrade'')"
    by code_simp+
  from title_branches_unreachable[OF all] s1 s2 s3 listed_crm0 t show ?thesis by blast
qed

lemma process_deal_churned:
  "churned (process_deal c b deal) = churned b @ churned (deal_entries c deal)"
  by (auto simp: deal_entries_def empty_buckets_def process_deal_def deal_body_def Let_def
        split: option.splits sum.splits bool.splits)

lemma process_deal_lost:
  "lost_deals (process_deal c b deal) = lost_deals b @ lost_deals (deal_entries c deal)"
  by (auto simp: deal_entries_def empty_buckets_def process_deal_def deal_body_def Let_def
        split: option.splits sum.splits bool.splits)

lemma process_deals_churned:
  "churned (process_deals c b deals) = churned b @ concat (map (\<lambda>d. churned (deal_entries c d)) deals)"
  unfolding process_deals_def
proof (induction deals arbitrary: b)
  case Nil
  then show ?case by simp
next
  case (Cons d ds)
  from Cons.IH[of "process_deal c b d"] process_deal_churned[of c b d] show ?case by simp
qed

lemma process_deals_lost:
  "lost_deals (process_deals c b deals) = lost_deals b @ concat (map (\<lambda>d. lost_deals (deal_entries c d)) deals)"
  unfolding process_deals_def
proof (induction deals arbitrary: b)
  case Nil
  then show ?case by simp
next
  case (Cons d ds)
  from Cons.IH[of "process_deal c b d"] process_deal_lost[of c b d] show ?case by simp
qed

lemma reaches_loop_result:
  assumes "reaches_loop c"
  shows "\<exists>r. fetch_recent_pipedrive_deals c = Inr r \<and>
             r_churned r = concat (map (\<lambda>d. churned (deal_entries c d)) (listed_deals c)) \<and>
             r_lost_deals r = concat (map (\<lambda>d. lost_deals (deal_entries c d)) (listed_deals c))"
proof -
  from assms obtain l deals changed ups downs where
    cr: "credentials c" and l: "deals_request c = Inr l" and s: "success l"
    and deals: "data_items l = Inr deals"
    and changed: "filter_deals_with_value_change (seven_days_ago_iso c) deals [] = Inr changed"
    and pass: "value_change_pass c changed ([], []) = Inr (ups, downs)"
    by (auto simp: reaches_loop_def split: sum.splits)
  from l deals have ld: "listed_deals c = deals" by (simp add: listed_deals_def)
  let ?b0 = "\<lparr> converted = [], churned = [], lost_deals = [], to_convert = [],
                new_trials = [], upgrades = ups, downgrades = downs \<rparr>"
  from cr l s deals changed pass
  have "\<exists>r. fetch_recent_pipedrive_deals c = Inr r \<and>
            r_churned r = churned (process_deals c ?b0 deals) \<and>
            r_lost_deals r = lost_deals (process_deals c ?b0 deals)"
    by (simp add: fetch_recent_pipedrive_deals_def fetch_body_def Let_def)
  then show ?thesis
    by (simp add: process_deals_churned process_deals_lost ld)
qed

lemma churn_title_entries:
  assumes "passes_gate c deal"
    and "deal_company_of deal = Inr company"
    and "get (d_status deal) = Some ''lost''"
    and "in_window_time c (get (d_lost_time deal))"
    and "get_default (d_title deal) ''Unnamed deal'' = Some title" and "contains ''churn'' (lower title)"
  shows "deal_entries c deal = empty_buckets\<lparr>churned := [churned_entry c deal company]\<rparr>"
  using assms
  by (auto simp: deal_entries_def passes_gate_def process_deal_def deal_body_def Let_def title_has_def
        churned_entry_def empty_buckets_def split: option.splits)


lemma value_change_pass_flow_indep [simp]:
  "value_change_pass (c\<lparr>flow_request := x\<rparr>) deals acc = value_change_pass c deals acc"
  by (induction c deals acc rule: value_change_pass.induct) (auto split: option.splits)

lemma reaches_loop_flow_indep [simp]: "reaches_loop (c\<lparr>flow_request := x\<rparr>) = reaches_loop c"
  by (simp add: reaches_loop_def cong: sum.case_cong)

lemma listed_deals_flow_indep [simp]: "listed_deals (c\<lparr>flow_request := x\<rparr>) = listed_deals c"
  by (simp add: listed_deals_def)

lemma passes_gate_flow_indep [simp]: "passes_gate (c\<lparr>flow_request := x\<rparr>) = passes_gate c"
  by (rule ext) (simp add: passes_gate_def cong: option.case_cong)

lemma in_window_time_flow_indep [simp]: "in_window_time (c\<lparr>flow_request := x\<rparr>) = in_window_time c"
  by (intro ext) (simp add: in_window_time_def cong: option.case_cong)

lemma churned_entry_flow_indep [simp]: "churned_entry (c\<lparr>flow_request := x\<rparr>) = churned_entry c"
  by (intro ext) (simp add: churned_entry_def fmt_num_def cong: option.case_cong)

text \<open>
  Where the run reaches the loop over the deals, the title decides: a listed deal that
  is not passed over for its update time and whose company is read without a fault,
  with status lost, a lost time inside the window and a title containing "churn" in any
  case, has its entry in the \<open>churned\<close> list of the dictionary returned and adds
  nothing to \<open>lost_deals\<close>, whatever the requests of the history lookup answer
  (\<open>lookup\<close> is any such answer).  The two lists returned are what the listed deals
  add, one after the other.
\<close>

lemma churn_title_decides:
  assumes "reaches_loop c" and "deal \<in> set (listed_deals c)"
    and "passes_gate c deal"
    and "deal_company_of deal = Inr company"
    and "get (d_status deal) = Some ''lost''"
    and "in_window_time c (get (d_lost_time deal))"
    and "get_default (d_title deal) ''Unnamed deal'' = Some title" and "contains ''churn'' (lower title)"
  shows "\<exists>r. fetch_recent_pipedrive_deals (c\<lparr>flow_request := lookup\<rparr>) = Inr r \<and>
             churned_entry c deal company \<in> set (r_churned r) \<and>
             r_churned r =
               concat (map (\<lambda>d. churned (deal_entries (c\<lparr>flow_request := lookup\<rparr>) d)) (listed_deals c)) \<and>
             r_lost_deals r =
               concat (map (\<lambda>d. lost_deals (deal_entries (c\<lparr>flow_request := lookup\<rparr>) d)) (listed_deals c)) \<and>
             churned (deal_entries (c\<lparr>flow_request := lookup\<rparr>) deal) = [churned_entry c deal company] \<and>
             lost_deals (deal_entries (c\<lparr>flow_request := lookup\<rparr>) deal) = []"
proof -
  let ?c = "c\<lparr>flow_request := lookup\<rparr>"
  from assms(1) have "reaches_loop ?c" by simp
  from reaches_loop_result[OF this] obtain r where
    r: "fetch_recent_pipedrive_deals ?c = Inr r"
       "r_churned r = concat (map (\<lambda>d. churned (deal_entries ?c d)) (listed_deals c))"
       "r_lost_deals r = concat (map (\<lambda>d. lost_deals (deal_entries ?c d)) (listed_deals c))"
    by auto
  from assms(3-8) have "deal_entries ?c deal = empty_buckets\<lparr>churned := [churned_entry ?c deal company]\<rparr>"
    by (intro churn_title_entries) simp_all
  then have e: "churned (deal_entries ?c deal) = [churned_entry c deal company]"
    "lost_deals (deal_entries ?c deal) = []"
    by (simp_all add: empty_buckets_def)
  with r(2) assms(2) have "churned_entry c deal company \<in> set (r_churned r)" by force
  with r e show ?thesis by blast
qed

lemma reaches_crm0: "reaches_loop crm0"
  by code_simp

lemma run_crm_no_change: "fetch_recent_pipedrive_deals crm_no_change = Inr (empty_result True)"
  by code_simp

text \<open>
  Claim C4: a deal with status lost, a lost time inside the window and "churn" in its
  title is placed in \<open>churned\<close> and not in \<open>lost_deals\<close>, whatever the history
  lookup reports.  In the example run, where the lookup reports false for the deal
  "Churn risk Co", the code does so.  It breaks the claim in the same run when no value
  change is found for the deal won long ago and updated lately: \<open>get_deal_value_change\<close>
  returns \<open>None\<close> for that deal, as its docstring says it may, \<open>None.startswith\<close>
  raises at line 169, before the loop over the deals, and the handler of lines 257 to
  268 returns an empty \<open>churned\<close>, although "Churn risk Co" is listed with every
  condition of the claim.
\<close>

theorem churn_title_not_returned:
  "get (d_status deal_churn) = Some ''lost'' \<and>
   d_title deal_churn = Val ''Churn risk Co'' \<and> contains ''churn'' (lower ''Churn risk Co'') \<and>
   deal_company_of deal_churn = Inr (Some ''Acme'') \<and>
   reaches_loop crm0 \<and> deal_churn \<in> set (listed_deals crm0) \<and>
   passes_gate crm0 deal_churn \<and> in_window_time crm0 (get (d_lost_time deal_churn)) \<and>
   \<not> check_if_previously_won crm0 (d_id deal_churn) \<and>
   map_sum id r_churned (fetch_recent_pipedrive_deals crm0) = Inr [''Acme -100'' @ euro @ ''/mo (price)''] \<and>
   map_sum id r_lost_deals (fetch_recent_pipedrive_deals crm0) = Inr [] \<and>
   credentials crm_no_change \<and>
   deals_request crm_no_change = Inr \<lparr> success = True, data = Val [deal_churn, deal_open_trial, deal_won_old] \<rparr> \<and>
   passes_gate crm_no_change deal_churn \<and>
   in_window_time crm_no_change (get (d_lost_time deal_churn)) \<and>
   filter_deals_with_value_change (seven_days_ago_iso crm_no_change) [deal_churn, deal_open_trial, deal_won_old] [] =
     Inr [deal_won_old] \<and>
   get_deal_value_change crm_no_change (d_id deal_won_old) (get (d_title deal_won_old)) = None \<and>
   value_change_pass crm_no_change [deal_won_old] ([], []) = Inl Fault \<and>
   map_sum id r_churned (fetch_recent_pipedrive_deals crm_no_change) = Inr []"
proof -
  have "get (d_status deal_churn) = Some ''lost''" by (simp add: deal_churn_def get_def)
  moreover have "d_title deal_churn = Val ''Churn risk Co''" by (simp add: deal_churn_def)
  moreover have "contains ''churn'' (lower ''Churn risk Co'')" by code_simp
  moreover have "deal_company_of deal_churn = Inr (Some ''Acme'')"
    by (simp add: deal_company_of_def deal_churn_def acme_def get_default_def)
  moreover have "reaches_loop crm0" by (rule reaches_crm0)
  moreover have "deal_churn \<in> set (listed_deals crm0)" by (simp add: listed_crm0)
  moreover have "passes_gate crm0 deal_churn" by code_simp
  moreover have "in_window_time crm0 (get (d_lost_time deal_churn))" by code_simp
  moreover have "\<not> check_if_previously_won crm0 (d_id deal_churn)" by code_simp
  moreover have "map_sum id r_churned (fetch_recent_pipedrive_deals crm0) =
      Inr [''Acme -100'' @ euro @ ''/mo (price)'']"
    unfolding run_crm0 by simp
  moreover have "map_sum id r_lost_deals (fetch_recent_pipedrive_deals crm0) = Inr []"
    unfolding run_crm0 by simp
  moreover have "credentials crm_no_change" by (simp add: crm_no_change_def crm0_def)
  moreover have "deals_request crm_no_change =
      Inr \<lparr> success = True, data = Val [deal_churn, deal_open_trial, deal_won_old] \<rparr>"
    by (simp add: crm_no_change_def crm0_def)
  moreover have "passes_gate crm_no_change deal_churn" by code_simp
  moreover have "in_window_time crm_no_change (get (d_lost_time deal_churn))" by code_simp
  moreover have "filter_deals_with_value_change (seven_days_ago_iso crm_no_change)
      [deal_churn, deal_open_trial, deal_won_old] [] = Inr [deal_won_old]" by code_simp
  moreover have "get_deal_value_change crm_no_change (d_id deal_won_old) (get (d_title deal_won_old)) = None"
    by (simp add: crm_no_change_def)
  moreover have "value_change_pass crm_no_change [deal_won_old] ([], []) = Inl Fault"
    by (simp add: crm_no_change_def)
  moreover have "map_sum id r_churned (fetch_recent_pipedrive_deals crm_no_change) = Inr []"
    unfolding run_crm_no_change by (simp add: empty_result_def)
  ultimately show ?thesis by blast
qed


lemma check_org_indep [simp]:
  "check_if_previously_won (c\<lparr>organizations_request := x\<rparr>) = check_if_previously_won c"
  by (rule ext) (simp add: check_if_previously_won_def)

lemma process_deal_org_indep [simp]:
  "process_deal (c\<lparr>organizations_request := x\<rparr>) = process_deal c"
  by (intro ext)
     (simp add: process_deal_def deal_body_def in_window_time_def fmt_num_def Let_def
           cong: if_cong option.case_cong sum.case_cong bool.case_cong)

lemma value_change_pass_org_indep [simp]:
  "value_change_pass (c\<lparr>organizations_request := x\<rparr>) deals acc = value_change_pass c deals acc"
  by (induction c deals acc rule: value_change_pass.induct) (auto split: option.splits)









section \<open>Properties of the markdown compiler\<close>

lemma in_class_not_one [simp]: "in_class (True, [one d]) c \<longleftrightarrow> c \<noteq> d"
  by (auto simp: in_class_def one_def)

lemma rep_concat:
  assumes "\<And>p c r. in_class cl c \<Longrightarrow> f (p, c # r) = []"
  shows "concat (map f (rep cl lo None prev s)) =
           (if lo \<le> length (takeWhile (in_class cl) s)
            then f (if takeWhile (in_class cl) s = [] then prev else Some (last (takeWhile (in_class cl) s)),
                    dropWhile (in_class cl) s)
            else [])"
proof (induction s arbitrary: lo prev)
  case Nil
  then show ?case by simp
next
  case (Cons c cs)
  show ?case
  proof (cases "in_class cl c")
    case True
    with Cons[of "lo - 1" "Some c"] assms[OF True] show ?thesis by auto
  next
    case False
    then show ?thesis by simp
  qed
qed

lemma take_length_dropWhile: "take (length s - length (dropWhile P s)) s = takeWhile P s"
proof -
  have "length s - length (dropWhile P s) = length (takeWhile P s)"
    by (metis add_diff_cancel_right' length_append takeWhile_dropWhile_id)
  then show ?thesis by (simp add: takeWhile_eq_take[symmetric])
qed

text \<open>A group around a greedy run of a negated class, followed by the excluded character.\<close>

lemma group_run_then_lit:
  "re_states (Seq (Grp n (Rep (True, [one d]) 1 None)) (Seq (Lit d) r)) (prev, s, caps) =
     (let run = takeWhile (\<lambda>x. x \<noteq> d) s; tail = dropWhile (\<lambda>x. x \<noteq> d) s
      in if run = [] then []
         else (case tail of [] \<Rightarrow> [] | c # rest \<Rightarrow> re_states r (Some d, rest, (n, run) # caps)))"
proof -
  let ?cl = "(True, [one d])"
  let ?f = "\<lambda>(p, r'). re_states (Seq (Lit d) r) (p, r', (n, take (length s - length r') s) # caps)"
  have cls: "in_class ?cl = (\<lambda>x. x \<noteq> d)" by (rule ext) simp
  have "re_states (Seq (Grp n (Rep ?cl 1 None)) (Seq (Lit d) r)) (prev, s, caps) =
        concat (map ?f (rep ?cl 1 None prev s))"
    by (simp add: comp_def case_prod_unfold map_concat)
  also have "\<dots> = (if 1 \<le> length (takeWhile (in_class ?cl) s)
            then ?f (if takeWhile (in_class ?cl) s = [] then prev else Some (last (takeWhile (in_class ?cl) s)),
                    dropWhile (in_class ?cl) s)
            else [])"
    by (rule rep_concat) auto
  also have "\<dots> = (let run = takeWhile (\<lambda>x. x \<noteq> d) s; tail = dropWhile (\<lambda>x. x \<noteq> d) s
      in if run = [] then []
         else (case tail of [] \<Rightarrow> [] | c # rest \<Rightarrow> re_states r (Some d, rest, (n, run) # caps)))"
  proof (cases "dropWhile (\<lambda>x. x \<noteq> d) s")
    case Nil
    show ?thesis by (simp add: cls Let_def Nil Suc_le_eq)
  next
    case (Cons c rest)
    then have "c = d" using hd_dropWhile[of "\<lambda>x. x \<noteq> d" s] by auto
    show ?thesis
      using take_length_dropWhile[of s "\<lambda>x. x \<noteq> d"]
      by (simp add: cls Let_def Cons \<open>c = d\<close> Suc_le_eq)
  qed
  finally show ?thesis .
qed

lemma group_run_then_last_lit:
  "re_states (Seq (Grp n (Rep (True, [one d]) 1 None)) (Lit d)) (prev, s, caps) =
     (let run = takeWhile (\<lambda>x. x \<noteq> d) s; tail = dropWhile (\<lambda>x. x \<noteq> d) s
      in if run = [] then []
         else (case tail of [] \<Rightarrow> [] | c # rest \<Rightarrow> [(Some d, rest, (n, run) # caps)]))"
proof -
  let ?cl = "(True, [one d])"
  let ?f = "\<lambda>(p, r'). re_states (Lit d) (p, r', (n, take (length s - length r') s) # caps)"
  have cls: "in_class ?cl = (\<lambda>x. x \<noteq> d)" by (rule ext) simp
  have "re_states (Seq (Grp n (Rep ?cl 1 None)) (Lit d)) (prev, s, caps) =
        concat (map ?f (rep ?cl 1 None prev s))"
    by (simp add: comp_def case_prod_unfold map_concat)
  also have "\<dots> = (if 1 \<le> length (takeWhile (in_class ?cl) s)
            then ?f (if takeWhile (in_class ?cl) s = [] then prev else Some (last (takeWhile (in_class ?cl) s)),
                    dropWhile (in_class ?cl) s)
            else [])"
    by (rule rep_concat) auto
  also have "\<dots> = (let run = takeWhile (\<lambda>x. x \<noteq> d) s; tail = dropWhile (\<lambda>x. x \<noteq> d) s
      in if run = [] then []
         else (case tail of [] \<Rightarrow> [] | c # rest \<Rightarrow> [(Some d, rest, (n, run) # caps)]))"
  proof (cases "dropWhile (\<lambda>x. x \<noteq> d) s")
    case Nil
    show ?thesis by (simp add: cls Let_def Nil Suc_le_eq)
  next
    case (Cons c rest)
    then have "c = d" using hd_dropWhile[of "\<lambda>x. x \<noteq> d" s] by auto
    show ?thesis
      using take_length_dropWhile[of s "\<lambda>x. x \<noteq> d"]
      by (simp add: cls Let_def Cons \<open>c = d\<close> Suc_le_eq)
  qed
  finally show ?thesis .
qed

lemma lit_seq_states:
  "re_states (Seq (Lit d) r) (prev, s, caps) =
     (case s of [] \<Rightarrow> [] | c # cs \<Rightarrow> if c = d then re_states r (Some d, cs, caps) else [])"
  by (auto split: list.splits)

lemma hd_dropWhile_star:
  "dropWhile (\<lambda>x. x \<noteq> d) s = c # rest \<Longrightarrow> c = d"
  using hd_dropWhile[of "\<lambda>x. x \<noteq> d" s] by auto

lemma italic_states:
  "re_states italic_pattern (prev, s, []) =
     (case star_span 1 s of Some (inner, rest) \<Rightarrow> [(Some CHR ''*'', rest, [(1, inner)])] | None \<Rightarrow> [])"
proof (cases s)
  case Nil
  then show ?thesis by (simp add: italic_pattern_def star_span_def)
next
  case s1: (Cons c cs)
  show ?thesis
  proof (cases "dropWhile (\<lambda>x. x \<noteq> CHR ''*'') cs")
    case Nil
    show ?thesis
      unfolding italic_pattern_def lit_seq_states group_run_then_last_lit
      by (simp add: star_span_def Let_def s1 Nil del: dropWhile_eq_Nil_conv)
  next
    case (Cons c' rest)
    show ?thesis
      unfolding italic_pattern_def lit_seq_states group_run_then_last_lit
      by (simp add: star_span_def Let_def s1 Cons hd_dropWhile_star[OF Cons] del: dropWhile_eq_Nil_conv)
  qed
qed

lemma bold_states:
  "re_states bold_pattern (prev, s, []) =
     (case star_span 2 s of Some (inner, rest) \<Rightarrow> [(Some CHR ''*'', rest, [(1, inner)])] | None \<Rightarrow> [])"
proof (cases s)
  case Nil
  then show ?thesis by (simp add: bold_pattern_def star_span_def)
next
  case s1: (Cons c cs)
  have two: "replicate 2 CHR ''*'' = ''**''" by (simp add: numeral_2_eq_2)
  show ?thesis
  proof (cases cs)
    case Nil
    with s1 show ?thesis by (simp add: bold_pattern_def star_span_def two)
  next
    case s2: (Cons c2 cs2)
    show ?thesis
    proof (cases "dropWhile (\<lambda>x. x \<noteq> CHR ''*'') cs2")
      case Nil
      show ?thesis
        unfolding bold_pattern_def lit_seq_states group_run_then_lit
        by (simp add: star_span_def Let_def two s1 s2 Nil del: dropWhile_eq_Nil_conv)
    next
      case (Cons c' rest)
      show ?thesis
        unfolding bold_pattern_def lit_seq_states group_run_then_lit
        by (cases rest)
           (simp_all add: star_span_def Let_def two s1 s2 Cons hd_dropWhile_star[OF Cons]
              del: dropWhile_eq_Nil_conv)
    qed
  qed
qed

lemma link_states:
  "re_states link_pattern (prev, s, []) =
     (case link_span s of
        Some (Link t u, rest) \<Rightarrow> [(Some CHR '')'', rest, [(2, u), (1, t)])]
      | _ \<Rightarrow> [])"
proof (cases s)
  case Nil
  then show ?thesis by (simp add: link_pattern_def link_span_def)
next
  case s1: (Cons c cs)
  let ?tail = "dropWhile (\<lambda>x. x \<noteq> CHR '']'') cs"
  show ?thesis
  proof (cases ?tail)
    case Nil
    show ?thesis
      unfolding link_pattern_def lit_seq_states group_run_then_lit
      by (simp add: link_span_def Let_def s1 Nil del: dropWhile_eq_Nil_conv)
  next
    case t1: (Cons c' rest)
    note c' = hd_dropWhile_star[OF t1]
    show ?thesis
    proof (cases rest)
      case Nil
      show ?thesis
        unfolding link_pattern_def lit_seq_states group_run_then_lit group_run_then_last_lit
        by (simp add: link_span_def Let_def s1 t1 c' Nil del: dropWhile_eq_Nil_conv)
    next
      case r1: (Cons c2 rest2)
      let ?tail2 = "dropWhile (\<lambda>x. x \<noteq> CHR '')'') rest2"
      show ?thesis
      proof (cases ?tail2)
        case Nil
        show ?thesis
          unfolding link_pattern_def lit_seq_states group_run_then_lit group_run_then_last_lit
          by (simp add: link_span_def Let_def s1 t1 c' r1 Nil del: dropWhile_eq_Nil_conv)
      next
        case (Cons c3 rest3)
        show ?thesis
          unfolding link_pattern_def lit_seq_states group_run_then_lit group_run_then_last_lit
          by (simp add: link_span_def Let_def s1 t1 c' r1 Cons hd_dropWhile_star[OF Cons]
                del: dropWhile_eq_Nil_conv)
      qed
    qed
  qed
qed

lemma link_span_item: "link_span s = Some (x, rest) \<Longrightarrow> \<exists>t u. x = Link t u"
  by (auto simp: link_span_def Let_def split: list.splits if_splits)

lemma link_states':
  "re_states link_pattern (prev, s, []) =
     (case link_span s of None \<Rightarrow> [] | Some (x, rest) \<Rightarrow> [(Some CHR '')'', rest, item_groups x)])"
proof (cases "link_span s")
  case None
  then show ?thesis by (simp add: link_states)
next
  case (Some a)
  obtain x rest where a: "a = (x, rest)" by (cases a)
  with Some link_span_item obtain t u where "x = Link t u" by blast
  with Some a show ?thesis by (simp add: link_states)
qed

lemma bold_states':
  "re_states bold_pattern (prev, s, []) =
     (case bold_span s of None \<Rightarrow> [] | Some (x, rest) \<Rightarrow> [(Some CHR ''*'', rest, item_groups x)])"
  by (auto simp: bold_states bold_span_def split: option.splits)

lemma italic_states':
  "re_states italic_pattern (prev, s, []) =
     (case italic_span s of None \<Rightarrow> [] | Some (x, rest) \<Rightarrow> [(Some CHR ''*'', rest, item_groups x)])"
  by (auto simp: italic_states italic_span_def split: option.splits)

lemma search_from_eq:
  assumes A: "\<And>prev s. re_states r (prev, s, []) =
                (case sp s of None \<Rightarrow> [] | Some (x, rest) \<Rightarrow> [(pc, rest, item_groups x)])"
  shows "search_from r i prev s = map_option (span_match i s) (first_span sp s)"
proof (induction s arbitrary: i prev)
  case Nil
  show ?case
    by (subst search_from.simps) (auto simp: A span_match_def split: option.splits)
next
  case (Cons c cs)
  show ?case
  proof (cases "sp (c # cs)")
    case None
    then show ?thesis
      by (subst search_from.simps)
         (auto simp: A Cons span_match_def option.map_comp comp_def case_prod_unfold
               intro!: option.map_cong)
  next
    case (Some a)
    then show ?thesis
      by (subst search_from.simps) (auto simp: A span_match_def split: prod.splits)
  qed
qed

lemma first_span_None: "first_span f s = None \<Longrightarrow> f (drop k s) = None"
proof (induction s arbitrary: k)
  case Nil
  then show ?case by (cases "f []") auto
next
  case (Cons c cs)
  then show ?case by (cases k) (auto split: option.splits)
qed

lemma first_span_Some:
  "first_span f s = Some (i, x, rest) \<Longrightarrow>
   i \<le> length s \<and> f (drop i s) = Some (x, rest) \<and> (\<forall>k<i. f (drop k s) = None)"
proof (induction s arbitrary: i)
  case Nil
  then show ?case by (cases "f []") auto
next
  case (Cons c cs)
  show ?case
  proof (cases "f (c # cs)")
    case None
    with Cons.prems obtain j where j: "i = Suc j" "first_span f cs = Some (j, x, rest)"
      by auto
    from Cons.IH[OF j(2)] j(1) None show ?thesis
      by (auto simp: less_Suc_eq_0_disj)
  next
    case (Some a)
    with Cons.prems show ?thesis by (auto split: prod.splits)
  qed
qed

lemma first_span_orelse:
  "first_span (orelse f g) s =
     (case first_span f s of
        None \<Rightarrow> first_span g s
      | Some (i, x, r) \<Rightarrow>
          (case first_span g s of
             None \<Rightarrow> Some (i, x, r)
           | Some (j, y, r') \<Rightarrow> if j < i then Some (j, y, r') else Some (i, x, r)))"
proof (induction s)
  case Nil
  have o: "orelse f g [] = (case f [] of Some x \<Rightarrow> Some x | None \<Rightarrow> g [])"
    by (simp add: orelse_def)
  show ?case by (auto simp: o split: option.splits)
next
  case (Cons c cs)
  have o: "orelse f g (c # cs) = (case f (c # cs) of Some x \<Rightarrow> Some x | None \<Rightarrow> g (c # cs))"
    by (simp add: orelse_def)
  show ?case
    by (cases "f (c # cs)"; cases "g (c # cs)"; cases "first_span f cs"; cases "first_span g cs")
       (auto simp: o Cons split: option.splits prod.splits)
qed

lemma re_search_link: "re_search link_pattern s = map_option (span_match 0 s) (first_span link_span s)"
  unfolding re_search_def by (rule search_from_eq) (rule link_states')

lemma re_search_bold: "re_search bold_pattern s = map_option (span_match 0 s) (first_span bold_span s)"
  unfolding re_search_def by (rule search_from_eq) (rule bold_states')

lemma re_search_italic: "re_search italic_pattern s = map_option (span_match 0 s) (first_span italic_span s)"
  unfolding re_search_def by (rule search_from_eq) (rule italic_states')

lemma spans_Nil [simp]: "link_span [] = None" "bold_span [] = None" "italic_span [] = None"
  by (simp_all add: link_span_def bold_span_def italic_span_def star_span_def)

lemma first_span_lt:
  assumes "f [] = None" and "first_span f s = Some (k, x, rest)"
  shows "k < length s"
proof (rule ccontr)
  assume "\<not> k < length s"
  then have "drop k s = []" by simp
  with first_span_Some[OF assms(2)] assms(1) show False by simp
qed

lemma first_link_type: "first_span link_span s = Some (k, x, rest) \<Longrightarrow> item_type x = Some link"
  using first_span_Some[of link_span s k x rest] link_span_item[of "drop k s" x rest] by auto

lemma first_bold_type: "first_span bold_span s = Some (k, x, rest) \<Longrightarrow> item_type x = Some bold"
  using first_span_Some[of bold_span s k x rest] by (auto simp: bold_span_def)

lemma first_italic_type: "first_span italic_span s = Some (k, x, rest) \<Longrightarrow> item_type x = Some italic"
  using first_span_Some[of italic_span s k x rest] by (auto simp: italic_span_def)

lemma find_next_eq:
  assumes "pos \<le> length text"
  shows "find_next text pos =
     (case first_span span_at (drop pos text) of
        None \<Rightarrow> (None, None, length text)
      | Some (k, x, rest) \<Rightarrow> (Some (span_match 0 (drop pos text) (k, x, rest)), item_type x, pos + k))"
proof -
  let ?s = "drop pos text"
  have len: "pos + length ?s = length text" using assms by simp
  have lt: "pos + k < length text"
    if "first_span f ?s = Some (k, x, rest)" and "f [] = None" for f k x rest
    using first_span_lt[OF that(2) that(1)] len by linarith
  show ?thesis
  proof (cases "first_span link_span ?s")
    case ln: None
    show ?thesis
    proof (cases "first_span bold_span ?s")
      case bn: None
      show ?thesis
      proof (cases "first_span italic_span ?s")
        case None
        with ln bn show ?thesis
          by (simp add: Let_def find_next_def patterns_def try_pattern_def re_search_link re_search_bold
                re_search_italic span_at_def first_span_orelse)
      next
        case (Some a)
        obtain k x rest where a: "a = (k, x, rest)" by (cases a)
        with Some ln bn lt[of italic_span k x rest] first_italic_type[of ?s k x rest] show ?thesis
          by (simp add: Let_def find_next_def patterns_def try_pattern_def re_search_link re_search_bold
                re_search_italic span_at_def first_span_orelse span_match_def)
      qed
    next
      case bs: (Some b)
      obtain kb xb rb where b: "b = (kb, xb, rb)" by (cases b)
      note bt = first_bold_type[of ?s kb xb rb] and bl = lt[of bold_span kb xb rb]
      show ?thesis
      proof (cases "first_span italic_span ?s")
        case None
        with ln bs b bt bl show ?thesis
          by (simp add: Let_def find_next_def patterns_def try_pattern_def re_search_link re_search_bold
                re_search_italic span_at_def first_span_orelse span_match_def)
      next
        case (Some a)
        obtain k x rest where a: "a = (k, x, rest)" by (cases a)
        with Some ln bs b bt bl lt[of italic_span k x rest] first_italic_type[of ?s k x rest] show ?thesis
          by (simp add: Let_def find_next_def patterns_def try_pattern_def re_search_link re_search_bold
                re_search_italic span_at_def first_span_orelse span_match_def)
      qed
    qed
  next
    case ls: (Some l)
    obtain kl xl rl where l: "l = (kl, xl, rl)" by (cases l)
    note lty = first_link_type[of ?s kl xl rl] and ll = lt[of link_span kl xl rl]
    show ?thesis
    proof (cases "first_span bold_span ?s")
      case bn: None
      show ?thesis
      proof (cases "first_span italic_span ?s")
        case None
        with ls l lty ll bn show ?thesis
          by (simp add: Let_def find_next_def patterns_def try_pattern_def re_search_link re_search_bold
                re_search_italic span_at_def first_span_orelse span_match_def)
      next
        case (Some a)
        obtain k x rest where a: "a = (k, x, rest)" by (cases a)
        with Some ls l lty ll bn lt[of italic_span k x rest] first_italic_type[of ?s k x rest] show ?thesis
          by (simp add: Let_def find_next_def patterns_def try_pattern_def re_search_link re_search_bold
                re_search_italic span_at_def first_span_orelse span_match_def)
      qed
    next
      case bs: (Some b)
      obtain kb xb rb where b: "b = (kb, xb, rb)" by (cases b)
      note bt = first_bold_type[of ?s kb xb rb] and bl = lt[of bold_span kb xb rb]
      show ?thesis
      proof (cases "first_span italic_span ?s")
        case None
        with ls l lty ll bs b bt bl show ?thesis
          by (simp add: Let_def find_next_def patterns_def try_pattern_def re_search_link re_search_bold
                re_search_italic span_at_def first_span_orelse span_match_def)
      next
        case (Some a)
        obtain k x rest where a: "a = (k, x, rest)" by (cases a)
        with Some ls l lty ll bs b bt bl lt[of italic_span k x rest] first_italic_type[of ?s k x rest]
        show ?thesis
          by (simp add: Let_def find_next_def patterns_def try_pattern_def re_search_link re_search_bold
                re_search_italic span_at_def first_span_orelse span_match_def)
      qed
    qed
  qed
qed

lemma drop_canon: "r = drop k s \<Longrightarrow> r = drop (length s - length r) s"
  by (cases "k \<le> length s") auto

lemma dropWhile_is_drop: "\<exists>k. dropWhile P s = drop k s"
  by (metis dropWhile_eq_drop)

lemma link_span_drop: "link_span s = Some (x, rest) \<Longrightarrow> \<exists>k. rest = drop k s"
proof -
  assume a: "link_span s = Some (x, rest)"
  then obtain s1 where s: "s = CHR ''['' # s1"
    by (auto simp: link_span_def split: list.splits if_splits)
  let ?tail = "dropWhile (\<lambda>x. x \<noteq> CHR '']'') s1"
  let ?tail2 = "dropWhile (\<lambda>x. x \<noteq> CHR '')'') (drop 2 ?tail)"
  from a s have r: "rest = drop 1 ?tail2" by (auto simp: link_span_def Let_def split: if_splits)
  obtain k1 where k1: "?tail = drop k1 s1" using dropWhile_is_drop by blast
  obtain k2 where k2: "?tail2 = drop k2 (drop 2 ?tail)" using dropWhile_is_drop by blast
  from r k1 k2 s have "rest = drop (Suc (1 + k2 + 2 + k1)) s" by simp
  then show ?thesis by blast
qed

lemma star_span_drop: "star_span n s = Some (x, rest) \<Longrightarrow> \<exists>k. rest = drop k s"
proof -
  assume a: "star_span n s = Some (x, rest)"
  let ?tail = "dropWhile (\<lambda>x. x \<noteq> CHR ''*'') (drop n s)"
  from a have r: "rest = drop n ?tail" by (auto simp: star_span_def Let_def split: if_splits)
  obtain k1 where "?tail = drop k1 (drop n s)" using dropWhile_is_drop by blast
  with r have "rest = drop (n + k1 + n) s" by (simp add: add.commute)
  then show ?thesis by blast
qed

lemma star_span_shorter: "0 < n \<Longrightarrow> star_span n s = Some (x, rest) \<Longrightarrow> length rest < length s"
proof -
  assume n: "0 < n" and a: "star_span n s = Some (x, rest)"
  let ?tail = "dropWhile (\<lambda>x. x \<noteq> CHR ''*'') (drop n s)"
  from a have r: "rest = drop n ?tail" and t: "take n s = replicate n CHR ''*''"
    by (auto simp: star_span_def Let_def split: if_splits)
  from t have "length (take n s) = n" by simp
  then have "n \<le> length s" by simp
  moreover have "length ?tail \<le> length (drop n s)" by (rule length_dropWhile_le)
  ultimately show ?thesis using r n by simp
qed

lemma link_span_shorter: "link_span s = Some (x, rest) \<Longrightarrow> length rest < length s"
proof -
  assume a: "link_span s = Some (x, rest)"
  then obtain s1 where s: "s = CHR ''['' # s1"
    by (auto simp: link_span_def split: list.splits if_splits)
  let ?tail = "dropWhile (\<lambda>x. x \<noteq> CHR '']'') s1"
  let ?tail2 = "dropWhile (\<lambda>x. x \<noteq> CHR '')'') (drop 2 ?tail)"
  from a s have r: "rest = drop 1 ?tail2" by (auto simp: link_span_def Let_def split: if_splits)
  have "length ?tail2 \<le> length (drop 2 ?tail)" by (rule length_dropWhile_le)
  moreover have "length ?tail \<le> length s1" by (rule length_dropWhile_le)
  ultimately show ?thesis using r s by simp
qed

lemma span_at_cases:
  "span_at s = Some (x, rest) \<Longrightarrow>
   link_span s = Some (x, rest) \<or>
   (\<exists>inner. star_span 2 s = Some (inner, rest) \<and> x = Bold inner) \<or>
   (\<exists>inner. star_span 1 s = Some (inner, rest) \<and> x = Italic inner)"
  by (auto simp: span_at_def orelse_def bold_span_def italic_span_def split: option.splits)

lemma span_at_rest:
  assumes "span_at s = Some (x, rest)"
  shows "length rest < length s \<and> rest = drop (length s - length rest) s"
proof -
  from span_at_cases[OF assms] have "length rest < length s \<and> (\<exists>k. rest = drop k s)"
    using link_span_shorter link_span_drop star_span_shorter[of 2] star_span_shorter[of 1]
      star_span_drop by (metis zero_less_numeral zero_less_one)
  then show ?thesis using drop_canon by blast
qed

lemma span_at_Nil [simp]: "span_at [] = None"
  by (simp add: span_at_def orelse_def)

lemma span_at_item:
  assumes "span_at s = Some (x, rest)" and "mt_groups mt = item_groups x"
  shows "\<exists>ty. item_type x = Some ty \<and> pattern_item ty mt = Some x"
  using span_at_cases[OF assms(1)] link_span_item[of s x rest] assms(2)
  by (auto simp: pattern_item_def group_def)

lemma visible_skip:
  "\<forall>k<i. span_at (drop k s) = None \<Longrightarrow> i \<le> length s \<Longrightarrow>
   visible_text s = take i s @ visible_text (drop i s)"
proof (induction i arbitrary: s)
  case 0
  then show ?case by simp
next
  case (Suc i)
  then obtain c cs where s: "s = c # cs" by (cases s) auto
  from Suc.prems(1) have "span_at (drop 0 s) = None" by blast
  with s have v: "visible_text s = c # visible_text cs" by simp
  have "\<forall>k<i. span_at (drop k cs) = None"
  proof (intro allI impI)
    fix k assume "k < i"
    with Suc.prems(1) have "span_at (drop (Suc k) s) = None" by simp
    with s show "span_at (drop k cs) = None" by simp
  qed
  from Suc.IH[OF this] Suc.prems(2) s v show ?case by simp
qed

lemma parse_loop_correct:
  "pos \<le> length text \<Longrightarrow>
   \<exists>runs. parse_loop text pos acc = Some (acc @ runs) \<and>
          concat (map item_text runs) = visible_text (drop pos text) \<and>
          (pos < length text \<longrightarrow> runs \<noteq> [])"
proof (induction "length text - pos" arbitrary: pos acc rule: less_induct)
  case less
  let ?s = "drop pos text"
  show ?case
  proof (cases "pos < length text")
    case False
    with less.prems show ?thesis
      by (subst parse_loop.simps) simp
  next
    case True
    show ?thesis
    proof (cases "first_span span_at ?s")
      case None
      then have "\<forall>k<length ?s. span_at (drop k ?s) = None"
        using first_span_None by blast
      from visible_skip[OF this] have "visible_text ?s = ?s" by simp
      with None True less.prems show ?thesis
        by (subst parse_loop.simps) (simp add: find_next_eq)
    next
      case (Some a)
      obtain k x rest where a: "a = (k, x, rest)" by (cases a)
      from first_span_Some[of span_at ?s k x rest] Some a
      have k: "k \<le> length ?s" and sp: "span_at (drop k ?s) = Some (x, rest)"
        and none: "\<forall>j<k. span_at (drop j ?s) = None" by auto
      from first_span_lt[of span_at ?s k x rest] Some a have klt: "k < length ?s" by simp
      define n where "n = length (drop k ?s) - length rest"
      from span_at_rest[OF sp] have n: "0 < n" and rest: "rest = drop n (drop k ?s)"
        by (auto simp: n_def)
      let ?mt = "span_match 0 ?s (k, x, rest)"
      have fn: "find_next text pos = (Some ?mt, item_type x, pos + k)"
        using less.prems Some a by (simp add: find_next_eq)
      have nle: "n \<le> length (drop k ?s)" by (simp add: n_def)
      have "mt_group0 ?mt = take n (drop k ?s)" by (simp add: span_match_def n_def add_ac)
      with nle have g0: "length (mt_group0 ?mt) = n" by (simp del: length_drop)
      from span_at_item[OF sp, of ?mt] obtain ty where
        ty: "item_type x = Some ty" "pattern_item ty ?mt = Some x" by (auto simp: span_match_def)
      define before where "before = (if 0 < k then [Plain (take k ?s)] else [])"
      have le: "pos + k + n \<le> length text" using klt less.prems nle by simp
      have step: "parse_loop text pos acc = parse_loop text (pos + k + n) (acc @ before @ [x])"
        using True n by (subst parse_loop.simps) (simp add: fn ty g0 before_def)
      have "length text - (pos + k + n) < length text - pos" using True n by linarith
      from less.hyps[OF this le, of "acc @ before @ [x]"] obtain runs where
        runs: "parse_loop text (pos + k + n) (acc @ before @ [x]) = Some ((acc @ before @ [x]) @ runs)"
        "concat (map item_text runs) = visible_text (drop (pos + k + n) text)" by blast
      have "drop (pos + k + n) text = rest" using rest by (simp add: add.commute add.left_commute)
      moreover have "visible_text ?s = take k ?s @ item_text x @ visible_text rest"
      proof -
        from klt obtain c cs where d: "drop k ?s = c # cs" by (cases "drop k ?s") auto
        with sp have "visible_text (drop k ?s) = item_text x @ visible_text rest" by simp
        with visible_skip[OF none k] show ?thesis by simp
      qed
      moreover have "concat (map item_text before) = take k ?s" by (simp add: before_def)
      ultimately have "concat (map item_text (before @ [x] @ runs)) = visible_text ?s"
        using runs(2) by simp
      with step runs(1) show ?thesis by (intro exI[of _ "before @ [x] @ runs"]) simp
    qed
  qed
qed

lemma span_at_head:
  "span_at s = Some (x, rest) \<Longrightarrow> \<exists>c cs. s = c # cs \<and> (c = CHR ''*'' \<or> c = CHR ''['')"
proof -
  assume a: "span_at s = Some (x, rest)"
  have star: "\<exists>cs. s = CHR ''*'' # cs" if "star_span n s = Some (i, r)" and "0 < n" for n i r
  proof -
    from that have t: "take n s = replicate n CHR ''*''"
      by (auto simp: star_span_def split: if_splits)
    from that(2) obtain m where "n = Suc m" by (cases n) auto
    with t show ?thesis by (cases s) auto
  qed
  from span_at_cases[OF a] show ?thesis
  proof (elim disjE exE conjE)
    assume "link_span s = Some (x, rest)"
    then show ?thesis by (auto simp: link_span_def split: list.splits if_splits)
  next
    fix inner assume "star_span 2 s = Some (inner, rest)"
    from star[OF this] show ?thesis by auto
  next
    fix inner assume "star_span 1 s = Some (inner, rest)"
    from star[OF this] show ?thesis by auto
  qed
qed

lemma no_markup_no_span:
  assumes "\<forall>c \<in> set line. c \<noteq> CHR ''*'' \<and> c \<noteq> CHR ''[''"
  shows "first_span span_at line = None"
proof (cases "first_span span_at line")
  case None
  then show ?thesis .
next
  case (Some a)
  obtain k x rest where "a = (k, x, rest)" by (cases a)
  with Some first_span_Some[of span_at line k x rest]
  have "span_at (drop k line) = Some (x, rest)" by simp
  from span_at_head[OF this] obtain c cs where c: "drop k line = c # cs" "c = CHR ''*'' \<or> c = CHR ''[''"
    by blast
  then have "c \<in> set (drop k line)" by simp
  then have "c \<in> set line" by (rule in_set_dropD)
  with assms c(2) show ?thesis by blast
qed

text \<open>
  Claim C7: \<open>parse_rich_text_with_links\<close> returns for every line, and the texts of
  the items it returns, put together, are the visible text of the line; the items of a
  paragraph block are the items of its line; a line without \<open>*\<close> and \<open>[\<close> comes
  back as one plain item.
\<close>

theorem paragraph_text_roundtrip:
  "\<exists>runs. parse_rich_text_with_links line = Some runs \<and>
          concat (map item_text runs) = visible_text line \<and>
          (line_block line = Some (Some (Paragraph b)) \<longrightarrow> b = runs) \<and>
          ((\<forall>c \<in> set line. c \<noteq> CHR ''*'' \<and> c \<noteq> CHR ''['') \<longrightarrow> runs = [Plain line])"
proof -
  from parse_loop_correct[of 0 line "[]"] obtain runs where
    runs: "parse_loop line 0 [] = Some runs" "concat (map item_text runs) = visible_text line"
    "0 < length line \<longrightarrow> runs \<noteq> []" by auto
  let ?out = "if runs \<noteq> [] then runs else [Plain line]"
  have p: "parse_rich_text_with_links line = Some ?out"
    by (simp add: parse_rich_text_with_links_def runs(1))
  have "line = []" if "runs = []" using that runs(3) by auto
  with runs(2) have t: "concat (map item_text ?out) = visible_text line" by auto
  have para: "b = ?out" if "line_block line = Some (Some (Paragraph b))"
    using that p by (auto simp: line_block_def Let_def split: if_splits option.splits)
  have plain: "?out = [Plain line]" if "\<forall>c \<in> set line. c \<noteq> CHR ''*'' \<and> c \<noteq> CHR ''[''"
  proof (cases "line = []")
    case True
    with runs(1) show ?thesis by (subst (asm) parse_loop.simps) auto
  next
    case False
    with runs(1) no_markup_no_span[OF that] show ?thesis
      by (subst (asm) parse_loop.simps) (auto simp: find_next_eq)
  qed
  from p t para plain show ?thesis by blast
qed

lemma run_example:
  "convert_markdown_to_blocks example_line =
     Some [Paragraph [Bold ''Bold'', Plain '' and '', Italic ''italic'', Plain '' and '',
                      Link ''link'' ''http://x'']]"
  by code_simp

lemma block_example:
  "line_block example_line =
     Some (Some (Paragraph [Bold ''Bold'', Plain '' and '', Italic ''italic'', Plain '' and '',
                            Link ''link'' ''http://x'']))"
  by code_simp

lemma parse_example:
  "parse_rich_text_with_links example_line =
     Some [Bold ''Bold'', Plain '' and '', Italic ''italic'', Plain '' and '', Link ''link'' ''http://x'']"
  by code_simp

text \<open>
  C7 at the line of the scenario, which is a paragraph, and at a line without markup.
\<close>

theorem paragraph_text_roundtrip_witness:
  "line_block example_line =
     Some (Some (Paragraph [Bold ''Bold'', Plain '' and '', Italic ''italic'', Plain '' and '',
                            Link ''link'' ''http://x''])) \<and>
   visible_text example_line = ''Bold and italic and link'' \<and>
   CHR ''*'' \<notin> set ''plain text'' \<and> CHR ''['' \<notin> set ''plain text'' \<and>
   parse_rich_text_with_links ''plain text'' = Some [Plain ''plain text''] \<and>
   visible_text ''plain text'' = ''plain text''"
proof -
  let ?b = "[Bold ''Bold'', Plain '' and '', Italic ''italic'', Plain '' and '', Link ''link'' ''http://x'']"
  from paragraph_text_roundtrip[of example_line ?b] block_example parse_example
  have 1: "visible_text example_line = ''Bold and italic and link''" by auto
  have h: "\<forall>c \<in> set ''plain text''. c \<noteq> CHR ''*'' \<and> c \<noteq> CHR ''[''" by simp
  from paragraph_text_roundtrip[of "''plain text''" "[]"] h
  have 2: "parse_rich_text_with_links ''plain text'' = Some [Plain ''plain text'']"
    "visible_text ''plain text'' = ''plain text''" by auto
  have n: "CHR ''*'' \<notin> set ''plain text''" "CHR ''['' \<notin> set ''plain text''" by simp_all
  from block_example 1 n 2 show ?thesis by blast
qed

lemma search_start_lt:
  assumes "(pat, ty) \<in> set patterns" and "re_search pat s = Some mt"
  shows "mt_start mt < length s"
proof -
  have go: "mt_start mt < length s"
    if "f [] = None" and "map_option (span_match 0 s) (first_span f s) = Some mt" for f
  proof -
    from that(2) obtain k x rest where k: "first_span f s = Some (k, x, rest)"
      and mt: "mt = span_match 0 s (k, x, rest)" by (cases "first_span f s") auto
    from first_span_lt[OF that(1) k] mt show ?thesis by (simp add: span_match_def)
  qed
  from assms(1) consider "pat = link_pattern" | "pat = bold_pattern" | "pat = italic_pattern"
    by (auto simp: patterns_def)
  then show ?thesis
  proof cases
    case 1
    with assms(2) show ?thesis using go[of link_span] by (simp add: re_search_link)
  next
    case 2
    with assms(2) show ?thesis using go[of bold_span] by (simp add: re_search_bold)
  next
    case 3
    with assms(2) show ?thesis using go[of italic_span] by (simp add: re_search_italic)
  qed
qed

lemma patterns_distinct:
  "link_pattern \<noteq> bold_pattern" "link_pattern \<noteq> italic_pattern" "bold_pattern \<noteq> italic_pattern"
  by (simp_all add: link_pattern_def bold_pattern_def italic_pattern_def)

lemma find_next_nearest:
  assumes pos: "pos \<le> length text"
    and fn: "find_next text pos = (next_match, next_type, next_pos)"
    and pat: "(pat, ty) \<in> set patterns"
    and mt: "re_search pat (drop pos text) = Some mt"
  shows "next_match \<noteq> None \<and> next_type \<noteq> None \<and> next_pos \<le> pos + mt_start mt \<and>
         (\<forall>chosen. next_type = Some chosen \<and> priority ty < priority chosen \<longrightarrow>
                   next_pos < pos + mt_start mt)"
proof -
  let ?s = "drop pos text"
  have len: "pos + length ?s = length text" using pos by simp
  have lt: "pos + mt_start m < length text"
    if "(p, t) \<in> set patterns" and "re_search p ?s = Some m" for p t m
    using search_start_lt[OF that] len by linarith
  obtain L B I where L: "re_search link_pattern ?s = L" and B: "re_search bold_pattern ?s = B"
    and I: "re_search italic_pattern ?s = I" by simp
  have l: "pos + mt_start m < length text" if "L = Some m" for m
    using lt[of link_pattern link m] that L by (simp add: patterns_def)
  have b: "pos + mt_start m < length text" if "B = Some m" for m
    using lt[of bold_pattern bold m] that B by (simp add: patterns_def)
  have i: "pos + mt_start m < length text" if "I = Some m" for m
    using lt[of italic_pattern italic m] that I by (simp add: patterns_def)
  have F: "(next_match, next_type, next_pos) =
      try_pattern text pos (try_pattern text pos (try_pattern text pos (None, None, length text)
        (link_pattern, link)) (bold_pattern, bold)) (italic_pattern, italic)"
    using fn by (simp add: find_next_def patterns_def)
  from pat consider "pat = link_pattern" "ty = link" | "pat = bold_pattern" "ty = bold"
    | "pat = italic_pattern" "ty = italic"
    by (auto simp: patterns_def)
  then show ?thesis
  proof cases
    case 1
    with mt L have "L = Some mt" by simp
    with F l b i 1 show ?thesis
      by (cases B; cases I) (auto simp: try_pattern_def Let_def L B I split: if_splits)
  next
    case 2
    with mt B have "B = Some mt" by simp
    with F l b i 2 show ?thesis
      by (cases L; cases I) (auto simp: try_pattern_def Let_def L B I split: if_splits)
  next
    case 3
    with mt I have "I = Some mt" by simp
    with F l b i 3 show ?thesis
      by (cases L; cases B) (auto simp: try_pattern_def Let_def L B I split: if_splits)
  qed
qed

text \<open>
  Claim C6, as the code has it: the line of the scenario compiles to one paragraph with
  the five items named; and at every round of the loop the match taken is the nearest
  among the three patterns, one earlier in the list \<open>patterns\<close> winning at equal
  starts, so that an italic match is taken only when it starts before every bold match
  of the text still to be read.
\<close>

theorem nearest_match_first:
  "convert_markdown_to_blocks ''**Bold** and *italic* and [link](http://x)'' =
     Some [Paragraph [Bold ''Bold'', Plain '' and '', Italic ''italic'', Plain '' and '',
                      Link ''link'' ''http://x'']] \<and>
   (pos \<le> length text \<and> find_next text pos = (next_match, next_type, next_pos) \<and>
    (pat, ty) \<in> set patterns \<and> re_search pat (drop pos text) = Some mt \<longrightarrow>
      next_match \<noteq> None \<and> next_type \<noteq> None \<and> next_pos \<le> pos + mt_start mt \<and>
      (\<forall>chosen. next_type = Some chosen \<and> priority ty < priority chosen \<longrightarrow>
                next_pos < pos + mt_start mt)) \<and>
   (pos \<le> length text \<and> find_next text pos = (next_match, Some italic, next_pos) \<and>
    re_search bold_pattern (drop pos text) = Some mb \<longrightarrow>
      next_pos < pos + mt_start mb)"
proof -
  have A: "convert_markdown_to_blocks ''**Bold** and *italic* and [link](http://x)'' =
     Some [Paragraph [Bold ''Bold'', Plain '' and '', Italic ''italic'', Plain '' and '',
                      Link ''link'' ''http://x'']]"
    using run_example by (simp add: example_line_def)
  have B: "next_match \<noteq> None \<and> next_type \<noteq> None \<and> next_pos \<le> pos + mt_start mt \<and>
      (\<forall>chosen. next_type = Some chosen \<and> priority ty < priority chosen \<longrightarrow>
                next_pos < pos + mt_start mt)"
    if "pos \<le> length text \<and> find_next text pos = (next_match, next_type, next_pos) \<and>
        (pat, ty) \<in> set patterns \<and> re_search pat (drop pos text) = Some mt"
    using that find_next_nearest[of pos "text" next_match next_type next_pos pat ty mt] by blast
  have C: "next_pos < pos + mt_start mb"
    if a: "pos \<le> length text \<and> find_next text pos = (next_match, Some italic, next_pos) \<and>
        re_search bold_pattern (drop pos text) = Some mb"
  proof -
    have "(bold_pattern, bold) \<in> set patterns" by (simp add: patterns_def)
    with a find_next_nearest[of pos "text" next_match "Some italic" next_pos bold_pattern bold mb]
    show ?thesis by simp
  qed
  from A B C show ?thesis by blast
qed

lemma find_next_example:
  "find_next example_line 0 =
     (Some \<lparr> mt_start = 0, mt_end = 8, mt_group0 = ''**Bold**'', mt_groups = [(1, ''Bold'')] \<rparr>,
      Some bold, 0)"
  by code_simp

lemma search_italic_example:
  "re_search italic_pattern example_line =
     Some \<lparr> mt_start = 1, mt_end = 7, mt_group0 = ''*Bold*'', mt_groups = [(1, ''Bold'')] \<rparr>"
  by code_simp

lemma find_next_example2:
  "find_next ''*x **Bold**'' 0 =
     (Some \<lparr> mt_start = 0, mt_end = 4, mt_group0 = ''*x *'', mt_groups = [(1, ''x '')] \<rparr>,
      Some italic, 0)"
  by code_simp

lemma search_bold_example2:
  "re_search bold_pattern ''*x **Bold**'' =
     Some \<lparr> mt_start = 3, mt_end = 11, mt_group0 = ''**Bold**'', mt_groups = [(1, ''Bold'')] \<rparr>"
  by code_simp

lemma run_example2:
  "convert_markdown_to_blocks ''*x **Bold**'' = Some [Paragraph [Italic ''x '', Italic ''Bold'', Plain ''*'']]"
  by code_simp

text \<open>
  C6 at the first round on the line of the scenario (bold at 0 is taken, the italic
  pattern matches its interior at 1), and at the first round on \<open>*x **Bold**\<close> (italic
  at 0 is taken, the bold pattern matches at 3).
\<close>

theorem nearest_match_first_witness:
  "find_next example_line 0 =
     (Some \<lparr> mt_start = 0, mt_end = 8, mt_group0 = ''**Bold**'', mt_groups = [(1, ''Bold'')] \<rparr>,
      Some bold, 0) \<and>
   (italic_pattern, italic) \<in> set patterns \<and>
   re_search italic_pattern (drop 0 example_line) =
     Some \<lparr> mt_start = 1, mt_end = 7, mt_group0 = ''*Bold*'', mt_groups = [(1, ''Bold'')] \<rparr> \<and>
   (0::nat) \<le> 0 + 1 \<and>
   find_next ''*x **Bold**'' 0 =
     (Some \<lparr> mt_start = 0, mt_end = 4, mt_group0 = ''*x *'', mt_groups = [(1, ''x '')] \<rparr>,
      Some italic, 0) \<and>
   re_search bold_pattern (drop 0 ''*x **Bold**'') =
     Some \<lparr> mt_start = 3, mt_end = 11, mt_group0 = ''**Bold**'', mt_groups = [(1, ''Bold'')] \<rparr> \<and>
   (0::nat) < 0 + 3"
proof -
  let ?mb = "\<lparr> mt_start = 0, mt_end = 8, mt_group0 = ''**Bold**'', mt_groups = [(1, ''Bold'')] \<rparr>"
  let ?mi = "\<lparr> mt_start = 1, mt_end = 7, mt_group0 = ''*Bold*'', mt_groups = [(1, ''Bold'')] \<rparr>"
  let ?mi2 = "\<lparr> mt_start = 0, mt_end = 4, mt_group0 = ''*x *'', mt_groups = [(1, ''x '')] \<rparr>"
  let ?mb2 = "\<lparr> mt_start = 3, mt_end = 11, mt_group0 = ''**Bold**'', mt_groups = [(1, ''Bold'')] \<rparr>"
  have p: "(italic_pattern, italic) \<in> set patterns" by (simp add: patterns_def)
  have s1: "re_search italic_pattern (drop 0 example_line) = Some ?mi"
    using search_italic_example by simp
  have s2: "re_search bold_pattern (drop 0 ''*x **Bold**'') = Some ?mb2"
    using search_bold_example2 by simp
  note w1 = nearest_match_first[of 0 example_line "Some ?mb" "Some bold" 0 italic_pattern italic ?mi ?mb2]
  note w2 = nearest_match_first[of 0 "''*x **Bold**''" "Some ?mi2" "Some italic" 0 bold_pattern bold ?mb2 ?mb2]
  from w1 find_next_example p s1 have a: "(0::nat) \<le> 0 + 1" by simp
  from w2 find_next_example2 s2 have b: "(0::nat) < 0 + 3" by simp
  from find_next_example p s1 a find_next_example2 s2 b show ?thesis by blast
qed

text \<open>
  C6 as stated fails on \<open>*x **Bold**\<close>: the bold pattern matches \<open>**Bold**\<close> in the
  line, and the interior of that span is returned as an italic item, since the italic
  match \<open>*x *\<close> before it has taken its first asterisk.
\<close>

theorem nearest_match_first_counterexample:
  "re_search bold_pattern ''*x **Bold**'' =
     Some \<lparr> mt_start = 3, mt_end = 11, mt_group0 = ''**Bold**'', mt_groups = [(1, ''Bold'')] \<rparr> \<and>
   convert_markdown_to_blocks ''*x **Bold**'' =
     Some [Paragraph [Italic ''x '', Italic ''Bold'', Plain ''*'']]"
  using search_bold_example2 run_example2 by simp

end
